theory Spec2Isabelle
  imports Complex_Main "HOL-Library.List_Lexorder" "HOL-Library.Product_Lexorder"
    "HOL-Library.Multiset"
begin

section \<open>Data model\<close>

text \<open>
  The model follows \<^verbatim>\<open>DQM/SiPixelPhase1Common/src/HistogramManager.cc\<close>.
  The headers that declare \<^verbatim>\<open>GeometryInterface::Values\<close>, \<^verbatim>\<open>SummationStep\<close>
  and \<^verbatim>\<open>AbstractHistogram\<close> are not among the sources; their operations are
  modelled from the specification and marked so. A \<^verbatim>\<open>double\<close> is an ideal real
  number, a C++ \<^verbatim>\<open>int\<close> counter is an \<open>int\<close> whose increment past \<open>INT_MAX\<close> is an
  error (signed overflow is undefined behaviour). Modelled are the stage-1 executor,
  the per-event harvest and the four stage-2 executors; booking, loading from the store
  and the harvesting drivers are not, and \<^verbatim>\<open>makePath\<close> is a parameter of \<open>executeSave\<close>.
\<close>

type_synonym Column = nat
type_synonym Value = int

text \<open>Modelled from the spec: \<open>UNDEFINED\<close> is the reserved sentinel integer of a
  column with no defined value; its numeric value is not in the sources and no theorem
  depends on it.\<close>

definition UNDEFINED :: Value where
  "UNDEFINED = 999999999"

text \<open>A Key: the vector of (column, value) pairs in \<^verbatim>\<open>Values::values\<close>. Keys compare
  as the vectors do, lexicographically (the order of \<^verbatim>\<open>std::map<Values, _>\<close>).\<close>

type_synonym Values = "(Column \<times> Value) list"

text \<open>Modelled from the spec: \<open>get\<close>, \<open>put\<close> and \<open>erase\<close> by column, none of which
  introduces a duplicate column. \<open>get\<close> of a column the key does not hold answers the
  column with \<open>UNDEFINED\<close>; \<open>at_col\<close> is \<^verbatim>\<open>operator[]\<close>, the value alone.\<close>

definition get :: "Values \<Rightarrow> Column \<Rightarrow> Column \<times> Value" where
  "get vs c = (case map_of vs c of Some v \<Rightarrow> (c, v) | None \<Rightarrow> (c, UNDEFINED))"

definition at_col :: "Values \<Rightarrow> Column \<Rightarrow> Value" where
  "at_col vs c = snd (get vs c)"

fun put :: "Values \<Rightarrow> Column \<times> Value \<Rightarrow> Values" where
  "put [] p = [p]"
| "put (q # vs) p = (if fst q = fst p then p # vs else q # put vs p)"

definition erase :: "Values \<Rightarrow> Column \<Rightarrow> Values" where
  "erase vs c = filter (\<lambda>p. fst p \<noteq> c) vs"

datatype Stage = STAGE1 | STAGE1_2 | STAGE2

datatype Type = NO_TYPE | GROUPBY | EXTEND_X | EXTEND_Y | COUNT | REDUCE | SAVE | CUSTOM

record SummationStep =
  type :: Type
  stage :: Stage
  columns :: "Column list"
  arg :: string

record SummationSpecification =
  steps :: "SummationStep list"

subsection \<open>Failures\<close>

text \<open>
  Failures are values: a failed \<^verbatim>\<open>assert\<close> (with its message), the
  \<^verbatim>\<open>std::out_of_range\<close> of \<^verbatim>\<open>vector::at\<close> (with the vector it was thrown for), and
  undefined behaviour (a null, stale or dangling pointer, signed overflow, a conversion
  to a floating-point type that cannot hold the value).
\<close>

datatype error = AssertionFailed string | OutOfRange string | UndefinedBehaviour string

text \<open>A loop whose body can fail: the first failure ends it.\<close>

fun fold_err :: "('s \<Rightarrow> 'a \<Rightarrow> error + 's) \<Rightarrow> 's \<Rightarrow> 'a list \<Rightarrow> error + 's" where
  "fold_err f s [] = Inr s"
| "fold_err f s (x # xs) = (case f s x of Inl e \<Rightarrow> Inl e | Inr s' \<Rightarrow> fold_err f s' xs)"

subsection \<open>Single-precision bins\<close>

text \<open>
  The histograms of this code are \<^verbatim>\<open>TH1F\<close> and \<^verbatim>\<open>TH2F\<close>: a bin is a \<^verbatim>\<open>Float_t\<close>, an
  IEEE 754 binary32 number, and every store into a bin converts to it. \<open>nearest_float\<close>
  is that conversion in the default rounding mode: the binary32 numbers around \<open>x\<close> are
  the multiples of \<open>float_ulp x\<close> (24 significant bits; below \<open>2 powi (- 126)\<close> the spacing of the
  subnormal numbers), and \<open>x\<close> goes to the nearest one, a tie to the even multiple. A
  result beyond \<^verbatim>\<open>FLT_MAX\<close> is no binary32 number: the conversion is undefined behaviour.
\<close>

definition round_even :: "real \<Rightarrow> int" where
  "round_even q =
     (let f = \<lfloor>q\<rfloor>; d = q - of_int f
      in if d < 1 / 2 then f else if 1 / 2 < d then f + 1 else if even f then f else f + 1)"

definition float_ulp :: "real \<Rightarrow> real" where
  "float_ulp x = 2 powi (max \<lfloor>log 2 \<bar>x\<bar>\<rfloor> (- 126) - 23)"

definition nearest_float :: "real \<Rightarrow> real" where
  "nearest_float x = (if x = 0 then 0 else of_int (round_even (x / float_ulp x)) * float_ulp x)"

definition FLT_MAX :: real where
  "FLT_MAX = (2 ^ 24 - 1) * 2 ^ 104"

definition Float_t :: "real \<Rightarrow> error + real" where
  "Float_t x =
     (if \<bar>nearest_float x\<bar> \<le> FLT_MAX then Inr (nearest_float x)
      else Inl (UndefinedBehaviour ''float range''))"

subsection \<open>ROOT histograms\<close>

text \<open>
  \<^verbatim>\<open>TH1\<close> belongs to ROOT, outside this repository. The model keeps what the code
  reads and writes: the name, the dimension, the numbers of bins of the two axes, the
  bin contents by global bin number (bin 0 is the underflow, the last bin of an axis
  the overflow), and the number of entries, a \<^verbatim>\<open>Double_t\<close>. Titles and axis labels are
  left out. The operations follow ROOT's reference documentation: a constructor raises
  a bin count below 1 to 1, \<^verbatim>\<open>SetBinContent\<close> counts an entry and ignores a bin that
  does not exist, \<^verbatim>\<open>GetBinContent\<close> clamps the bin, \<^verbatim>\<open>Add\<close> refuses (and only
  prints an error) when the numbers of bins differ, and otherwise adds bin by bin, each
  sum stored in the bin's single precision.
\<close>

record TH1 =
  GetName :: string
  GetDimension :: nat
  XNbins :: nat
  YNbins :: nat
  cells :: "real list"
  GetEntries :: real

definition new_TH1F :: "string \<Rightarrow> nat \<Rightarrow> TH1" where
  "new_TH1F nm n =
     \<lparr>GetName = nm, GetDimension = 1, XNbins = max 1 n, YNbins = 1,
      cells = replicate (max 1 n + 2) 0, GetEntries = 0\<rparr>"

definition new_TH2F :: "string \<Rightarrow> nat \<Rightarrow> nat \<Rightarrow> TH1" where
  "new_TH2F nm n m =
     \<lparr>GetName = nm, GetDimension = 2, XNbins = max 1 n, YNbins = max 1 m,
      cells = replicate ((max 1 n + 2) * (max 1 m + 2)) 0, GetEntries = 0\<rparr>"

text \<open>The bin the two-index accessors address: a \<^verbatim>\<open>TH2\<close> clamps both indices
  and combines them (\<^verbatim>\<open>TH2::GetBin\<close>), a one-dimensional \<^verbatim>\<open>TH1\<close> ignores the second
  index.\<close>

definition GetBin :: "TH1 \<Rightarrow> int \<Rightarrow> int \<Rightarrow> int" where
  "GetBin h i j =
     (if GetDimension h = 1 then i
      else max 0 (min i (int (XNbins h) + 1)) +
           (int (XNbins h) + 2) * max 0 (min j (int (YNbins h) + 1)))"

definition GetBinContent :: "TH1 \<Rightarrow> int \<Rightarrow> real" where
  "GetBinContent h b =
     (if cells h = [] then 0
      else cells h ! nat (max 0 (min b (int (length (cells h)) - 1))))"

definition GetBinContent2 :: "TH1 \<Rightarrow> int \<Rightarrow> int \<Rightarrow> real" where
  "GetBinContent2 h i j = GetBinContent h (GetBin h i j)"

definition SetBinContent :: "TH1 \<Rightarrow> int \<Rightarrow> real \<Rightarrow> error + TH1" where
  "SetBinContent h b v =
     (if 0 \<le> b \<and> b < int (length (cells h))
      then (case Float_t v of
              Inl e \<Rightarrow> Inl e
            | Inr f \<Rightarrow> Inr (h\<lparr>cells := (cells h)[nat b := f], GetEntries := GetEntries h + 1\<rparr>))
      else Inr (h\<lparr>GetEntries := GetEntries h + 1\<rparr>))"

definition SetBinContent2 :: "TH1 \<Rightarrow> int \<Rightarrow> int \<Rightarrow> real \<Rightarrow> error + TH1" where
  "SetBinContent2 h i j v = SetBinContent h (GetBin h i j) v"

definition same_bins :: "TH1 \<Rightarrow> TH1 \<Rightarrow> bool" where
  "same_bins h g \<longleftrightarrow>
     GetDimension h = GetDimension g \<and> XNbins h = XNbins g \<and> YNbins h = YNbins g \<and>
     length (cells h) = length (cells g)"

text \<open>\<^verbatim>\<open>fArray[bin] += ...\<close> over the bins, in order.\<close>

fun float_sums :: "real list \<Rightarrow> real list \<Rightarrow> error + real list" where
  "float_sums (a # as) (b # bs) =
     (case Float_t (a + b) of
        Inl e \<Rightarrow> Inl e
      | Inr c \<Rightarrow> (case float_sums as bs of Inl e \<Rightarrow> Inl e | Inr cs \<Rightarrow> Inr (c # cs)))"
| "float_sums [] bs = Inr []"
| "float_sums as [] = Inr []"

definition Add :: "TH1 \<Rightarrow> TH1 \<Rightarrow> error + TH1" where
  "Add h g =
     (if same_bins h g
      then (case float_sums (cells h) (cells g) of
              Inl e \<Rightarrow> Inl e
            | Inr cs \<Rightarrow> Inr (h\<lparr>cells := cs, GetEntries := \<bar>GetEntries h + GetEntries g\<bar>\<rparr>))
      else Inr h)"

definition Clone :: "TH1 \<Rightarrow> TH1" where
  "Clone h = h"

text \<open>What ROOT computes in floating point from axis limits and fill statistics is a
  parameter: filling one value, filling a pair, and the mean of a distribution.\<close>

record ROOT =
  Fill1 :: "real \<Rightarrow> TH1 \<Rightarrow> TH1"
  Fill2 :: "real \<Rightarrow> real \<Rightarrow> TH1 \<Rightarrow> TH1"
  GetMean :: "TH1 \<Rightarrow> real"

subsection \<open>Accumulators and the Table\<close>

text \<open>
  \<^verbatim>\<open>AbstractHistogram\<close>: a counter and two pointers, \<^verbatim>\<open>me\<close> (the published
  MonitorElement, seen through \<^verbatim>\<open>getTH1()\<close>) and \<^verbatim>\<open>th1\<close>; \<open>None\<close> is the null
  pointer. The objects are held by value: where the code makes \<^verbatim>\<open>th1\<close> point at the
  MonitorElement's own histogram, both fields hold the same value and a fill updates both.
\<close>

record AbstractHistogram =
  count :: int
  me :: "TH1 option"
  th1 :: "TH1 option"

definition empty_histogram :: AbstractHistogram where
  "empty_histogram = \<lparr>count = 0, me = None, th1 = None\<rparr>"

definition booked :: "AbstractHistogram \<Rightarrow> bool" where
  "booked a \<longleftrightarrow> \<not> (th1 a = None \<and> me a = None)"

definition INT_MAX :: int where
  "INT_MAX = 2147483647"

text \<open>Modelled from the spec: \<^verbatim>\<open>AbstractHistogram::fill\<close> is declared in a header
  that is not among the sources. Filling a bound histogram fills the distribution,
  filling a counter increments its count.\<close>

definition fill_histogram :: "(TH1 \<Rightarrow> TH1) \<Rightarrow> AbstractHistogram \<Rightarrow> AbstractHistogram" where
  "fill_histogram f a = a\<lparr>me := map_option f (me a), th1 := map_option f (th1 a)\<rparr>"

definition fill :: "(TH1 \<Rightarrow> TH1) \<Rightarrow> AbstractHistogram \<Rightarrow> AbstractHistogram" where
  "fill f a = (if booked a then fill_histogram f a else a\<lparr>count := count a + 1\<rparr>)"

text \<open>The Table is a \<^verbatim>\<open>std::map<Values, AbstractHistogram>\<close>: the list of its nodes in
  iteration order, which is ascending key order. \<open>tbl_put\<close> writes one node, creating it
  at its place in the order; \<open>tbl_at\<close> reads what \<^verbatim>\<open>t[k]\<close> refers to, a default
  accumulator when the key is new; \<open>tbl_index\<close> is the node creation of \<^verbatim>\<open>t[k]\<close>.\<close>

type_synonym Table = "(Values \<times> AbstractHistogram) list"

fun tbl_put :: "Values \<Rightarrow> AbstractHistogram \<Rightarrow> Table \<Rightarrow> Table" where
  "tbl_put k a [] = [(k, a)]"
| "tbl_put k a ((k', a') # t) =
     (if k = k' then (k, a) # t
      else if k < k' then (k, a) # (k', a') # t
      else (k', a') # tbl_put k a t)"

definition tbl_at :: "Table \<Rightarrow> Values \<Rightarrow> AbstractHistogram" where
  "tbl_at t k = (case map_of t k of Some a \<Rightarrow> a | None \<Rightarrow> empty_histogram)"

definition tbl_index :: "Table \<Rightarrow> Values \<Rightarrow> Table" where
  "tbl_index t k = (case map_of t k of Some a \<Rightarrow> t | None \<Rightarrow> tbl_put k empty_histogram t)"

definition table_ok :: "Table \<Rightarrow> bool" where
  "table_ok t \<longleftrightarrow> sorted_wrt (<) (map fst t)"

section \<open>Stage 1: executeStep1Spec\<close>

text \<open>
  The cache slot \<^verbatim>\<open>AbstractHistogram*& fastpath\<close>: null, the address of the Table node
  of a key (nodes of a \<^verbatim>\<open>std::map\<close> never move), or the address of the by-value copy
  \<^verbatim>\<open>e\<close> that \<^verbatim>\<open>executePerEventHarvesting\<close> makes of the node of a key. The copy has a
  counter of its own and shares the histogram objects of the node it was copied from.
\<close>

datatype ptr = Null | Node Values | Local Values AbstractHistogram

record walk_state =
  st_x :: real
  st_y :: real
  st_dimensions :: int
  st_significantvalues :: Values
  st_t :: Table
  st_fastpath :: ptr

text \<open>\<open>Continue\<close>: the \<^verbatim>\<open>break\<close> out of the \<^verbatim>\<open>switch\<close>, on to the next step;
  \<open>Return\<close>: the \<^verbatim>\<open>return\<close> out of the function.\<close>

datatype 'a flow = Continue 'a | Return 'a

text \<open>\<^verbatim>\<open>if (!fastpath) fastpath = &t[significantvalues]; fastpath->count++;\<close>\<close>

definition count_increment :: "walk_state \<Rightarrow> error + walk_state" where
  "count_increment w =
     (let w1 = (if st_fastpath w = Null
                then w\<lparr>st_t := tbl_index (st_t w) (st_significantvalues w),
                       st_fastpath := Node (st_significantvalues w)\<rparr>
                else w)
      in case st_fastpath w1 of
           Null \<Rightarrow> Inl (UndefinedBehaviour ''null fastpath'')
         | Node k \<Rightarrow>
             (case map_of (st_t w1) k of
                None \<Rightarrow> Inl (UndefinedBehaviour ''stale fastpath'')
              | Some a \<Rightarrow>
                  if count a = INT_MAX then Inl (UndefinedBehaviour ''signed overflow'')
                  else Inr (w1\<lparr>st_t := tbl_put k (a\<lparr>count := count a + 1\<rparr>) (st_t w1)\<rparr>))
         | Local k a \<Rightarrow>
             if count a = INT_MAX then Inl (UndefinedBehaviour ''signed overflow'')
             else Inr (w1\<lparr>st_fastpath := Local k (a\<lparr>count := count a + 1\<rparr>)\<rparr>))"

text \<open>The GROUPBY case reads the count through the cache slot, or through
  \<^verbatim>\<open>t[significantvalues]\<close> when the slot is null.\<close>

definition read_count :: "walk_state \<Rightarrow> error + int" where
  "read_count w =
     (case st_fastpath w of
        Null \<Rightarrow> Inr (count (tbl_at (st_t w) (st_significantvalues w)))
      | Node k \<Rightarrow>
          (case map_of (st_t w) k of
             None \<Rightarrow> Inl (UndefinedBehaviour ''stale fastpath'')
           | Some a \<Rightarrow> Inr (count a))
      | Local k a \<Rightarrow> Inr (count a))"

text \<open>\<^verbatim>\<open>for (auto c : step.columns) new_vals.put(significantvalues.get(c));\<close>\<close>

definition regroup :: "Column list \<Rightarrow> Values \<Rightarrow> Values" where
  "regroup cs vs = foldl put [] (map (get vs) cs)"

text \<open>One turn of the loop over \<^verbatim>\<open>s.steps\<close>: \<open>step\<close> is \<^verbatim>\<open>s.steps[i]\<close> and \<open>rest\<close> the
  steps after it, so that \<^verbatim>\<open>s.steps.at(i + 1)\<close> is the head of \<open>rest\<close> and throws when
  \<open>rest\<close> is empty.\<close>

definition exec_step ::
  "Stage \<Rightarrow> SummationStep \<Rightarrow> SummationStep list \<Rightarrow> walk_state \<Rightarrow> error + walk_state flow" where
  "exec_step stg step rest w =
     (if stage step \<noteq> stg then Inr (Continue w)
      else case type step of
        SAVE \<Rightarrow> Inr (Continue w)
      | COUNT \<Rightarrow>
          (let w0 = w\<lparr>st_x := 0, st_y := 0, st_dimensions := 0\<rparr> in
           case rest of
             [] \<Rightarrow> Inl (OutOfRange ''steps'')
           | nxt # _ \<Rightarrow>
               if stage nxt = STAGE1_2
               then (case count_increment w0 of Inl e \<Rightarrow> Inl e | Inr w1 \<Rightarrow> Inr (Return w1))
               else Inr (Continue w0))
      | EXTEND_X \<Rightarrow>
          if \<not> (st_x w = 0 \<and> st_dimensions w \<noteq> 1)
          then Inl (AssertionFailed ''Can only EXTEND on COUNTs in step1'')
          else (case columns step of
                  [] \<Rightarrow> Inl (OutOfRange ''columns'')
                | c # _ \<Rightarrow>
                    Inr (Continue (w\<lparr>st_x := of_int (at_col (st_significantvalues w) c),
                                     st_significantvalues := erase (st_significantvalues w) c,
                                     st_dimensions := (if st_dimensions w = 0 then 1 else 2)\<rparr>)))
      | EXTEND_Y \<Rightarrow>
          if st_y w \<noteq> 0
          then Inl (AssertionFailed ''Can only EXTEND on COUNTs in step1'')
          else (case columns step of
                  [] \<Rightarrow> Inl (OutOfRange ''columns'')
                | c # _ \<Rightarrow>
                    Inr (Continue (w\<lparr>st_y := of_int (at_col (st_significantvalues w) c),
                                     st_significantvalues := erase (st_significantvalues w) c,
                                     st_dimensions := 2\<rparr>)))
      | GROUPBY \<Rightarrow>
          if stg \<noteq> STAGE1_2
          then Inl (AssertionFailed
                 ''Only COUNT/GROUPBY with per-event harvesting allowed in step1'')
          else (case read_count w of
                  Inl e \<Rightarrow> Inl e
                | Inr n \<Rightarrow>
                    (let k = st_significantvalues w;
                         t1 = tbl_put k ((tbl_at (st_t w) k)\<lparr>count := 0\<rparr>) (st_t w)
                     in Inr (Continue (w\<lparr>st_dimensions := 1, st_x := of_int n,
                                          st_fastpath := Null, st_t := t1,
                                          st_significantvalues := regroup (columns step) k\<rparr>))))
      | REDUCE \<Rightarrow> Inl (AssertionFailed ''Illegal step; booking should have caught this.'')
      | CUSTOM \<Rightarrow> Inl (AssertionFailed ''Illegal step; booking should have caught this.'')
      | NO_TYPE \<Rightarrow> Inl (AssertionFailed ''Illegal step; booking should have caught this.''))"

text \<open>The loop \<^verbatim>\<open>for (i = 0; i < s.steps.size(); i++)\<close>, by recursion on the steps still
  to run.\<close>

fun walk :: "Stage \<Rightarrow> SummationStep list \<Rightarrow> walk_state \<Rightarrow> error + walk_state flow" where
  "walk stg [] w = Inr (Continue w)"
| "walk stg (step # rest) w =
     (case exec_step stg step rest w of
        Inl e \<Rightarrow> Inl e
      | Inr (Return w') \<Rightarrow> Inr (Return w')
      | Inr (Continue w') \<Rightarrow> walk stg rest w')"

text \<open>\<^verbatim>\<open>fastpath->fill(...)\<close> through the cache slot. Through the address of a copy,
  the copy is filled; its histogram objects are those of the node it was copied from,
  so that node sees the fill of a bound histogram, and not the count of a counter.\<close>

definition fill_through :: "(TH1 \<Rightarrow> TH1) \<Rightarrow> walk_state \<Rightarrow> error + walk_state" where
  "fill_through f w =
     (case st_fastpath w of
        Null \<Rightarrow> Inl (UndefinedBehaviour ''null fastpath'')
      | Node k \<Rightarrow>
          (case map_of (st_t w) k of
             None \<Rightarrow> Inl (UndefinedBehaviour ''stale fastpath'')
           | Some a \<Rightarrow> Inr (w\<lparr>st_t := tbl_put k (fill f a) (st_t w)\<rparr>))
      | Local k a \<Rightarrow>
          Inr (w\<lparr>st_fastpath := Local k (fill f a),
                 st_t := (case map_of (st_t w) k of
                            None \<Rightarrow> st_t w
                          | Some b \<Rightarrow>
                              if booked a then tbl_put k (fill_histogram f b) (st_t w)
                              else st_t w)\<rparr>))"

text \<open>The part of the manager object the executors read.\<close>

record HistogramManager =
  enabled :: bool
  bookUndefined :: bool
  dimensions :: int

text \<open>The code after the loop: look the final key up when the slot is null, then fill
  0, 1 or 2 values.\<close>

definition fill_final :: "HistogramManager \<Rightarrow> ROOT \<Rightarrow> walk_state \<Rightarrow> error + walk_state" where
  "fill_final hm R w =
     (let found = (if st_fastpath w = Null
                   then (case map_of (st_t w) (st_significantvalues w) of
                           None \<Rightarrow> None
                         | Some a \<Rightarrow>
                             if th1 a = None \<and> me a = None then None
                             else Some (w\<lparr>st_fastpath := Node (st_significantvalues w)\<rparr>))
                   else Some w)
      in case found of
           None \<Rightarrow>
             if bookUndefined hm
             then Inl (AssertionFailed
               ''All histograms were booked but one is missing. This is a problem in the booking process.'')
             else Inr w
         | Some w1 \<Rightarrow>
             if st_dimensions w1 = 0 then fill_through (Fill1 R 0) w1
             else if st_dimensions w1 = 1 then fill_through (Fill1 R (st_x w1)) w1
             else fill_through (Fill2 R (st_x w1) (st_y w1)) w1)"

definition executeStep1Spec ::
  "HistogramManager \<Rightarrow> ROOT \<Rightarrow> real \<Rightarrow> real \<Rightarrow> Values \<Rightarrow> SummationSpecification \<Rightarrow> Table \<Rightarrow>
   Stage \<Rightarrow> ptr \<Rightarrow> error + walk_state" where
  "executeStep1Spec hm R x y significantvalues s t stg fastpath =
     (case walk stg (steps s)
             \<lparr>st_x = x, st_y = y, st_dimensions = dimensions hm,
              st_significantvalues = significantvalues, st_t = t, st_fastpath = fastpath\<rparr> of
        Inl e \<Rightarrow> Inl e
      | Inr (Return w) \<Rightarrow> Inr w
      | Inr (Continue w) \<Rightarrow> fill_final hm R w)"

subsection \<open>Sequences of stage-1 calls\<close>

text \<open>A sequence of calls of the executor for samples \<open>(x, y)\<close> that share the
  extracted key \<open>K\<close>, in stage \<^verbatim>\<open>STAGE1\<close>. \<open>fill_calls_cached\<close> hands the cache slot
  of one call to the next, as the caller's \<^verbatim>\<open>fastpath[i]\<close> does; \<open>fill_calls_uncached\<close>
  resets the slot to null before every call. An error ends the sequence.\<close>

fun fill_calls_cached ::
  "HistogramManager \<Rightarrow> ROOT \<Rightarrow> SummationSpecification \<Rightarrow> Values \<Rightarrow> (real \<times> real) list \<Rightarrow>
   Table \<Rightarrow> ptr \<Rightarrow> error + Table \<times> ptr" where
  "fill_calls_cached hm R s K [] t fastpath = Inr (t, fastpath)"
| "fill_calls_cached hm R s K ((x, y) # calls) t fastpath =
     (case executeStep1Spec hm R x y K s t STAGE1 fastpath of
        Inl e \<Rightarrow> Inl e
      | Inr w \<Rightarrow> fill_calls_cached hm R s K calls (st_t w) (st_fastpath w))"

fun fill_calls_uncached ::
  "HistogramManager \<Rightarrow> ROOT \<Rightarrow> SummationSpecification \<Rightarrow> Values \<Rightarrow> (real \<times> real) list \<Rightarrow>
   Table \<Rightarrow> error + Table" where
  "fill_calls_uncached hm R s K [] t = Inr t"
| "fill_calls_uncached hm R s K ((x, y) # calls) t =
     (case executeStep1Spec hm R x y K s t STAGE1 Null of
        Inl e \<Rightarrow> Inl e
      | Inr w \<Rightarrow> fill_calls_uncached hm R s K calls (st_t w))"

text \<open>The same sequences when the caller hands every call the key object as the
  previous call left it (as \<^verbatim>\<open>HistogramManager::fill\<close> does with \<^verbatim>\<open>significantvalues[i]\<close>
  while its source identity is unchanged) instead of the freshly extracted key.\<close>

fun fill_calls_cached_inplace ::
  "HistogramManager \<Rightarrow> ROOT \<Rightarrow> SummationSpecification \<Rightarrow> (real \<times> real) list \<Rightarrow>
   Values \<Rightarrow> Table \<Rightarrow> ptr \<Rightarrow> error + Values \<times> Table \<times> ptr" where
  "fill_calls_cached_inplace hm R s [] significantvalues t fastpath =
     Inr (significantvalues, t, fastpath)"
| "fill_calls_cached_inplace hm R s ((x, y) # calls) significantvalues t fastpath =
     (case executeStep1Spec hm R x y significantvalues s t STAGE1 fastpath of
        Inl e \<Rightarrow> Inl e
      | Inr w \<Rightarrow>
          fill_calls_cached_inplace hm R s calls (st_significantvalues w) (st_t w) (st_fastpath w))"

fun fill_calls_uncached_inplace ::
  "HistogramManager \<Rightarrow> ROOT \<Rightarrow> SummationSpecification \<Rightarrow> (real \<times> real) list \<Rightarrow>
   Values \<Rightarrow> Table \<Rightarrow> error + Values \<times> Table" where
  "fill_calls_uncached_inplace hm R s [] significantvalues t = Inr (significantvalues, t)"
| "fill_calls_uncached_inplace hm R s ((x, y) # calls) significantvalues t =
     (case executeStep1Spec hm R x y significantvalues s t STAGE1 Null of
        Inl e \<Rightarrow> Inl e
      | Inr w \<Rightarrow> fill_calls_uncached_inplace hm R s calls (st_significantvalues w) (st_t w))"

subsection \<open>executePerEventHarvesting\<close>








section \<open>Stage 2: the harvesting steps\<close>

subsection \<open>executeSave\<close>

text \<open>
  \<^verbatim>\<open>DQMStore::IBooker\<close> is an external collaborator: the model records each booking, the
  folder set by \<^verbatim>\<open>setCurrentFolder\<close> and the empty histogram booked there. \<open>makePath\<close>
  (lines 203 to 223, a formatter over \<^verbatim>\<open>geometryInterface.pretty\<close>) is a parameter.
\<close>

type_synonym IBooker = "(string \<times> TH1) list"

definition save_entry ::
  "HistogramManager \<Rightarrow> (Values \<Rightarrow> string) \<Rightarrow> Values \<times> AbstractHistogram \<Rightarrow> IBooker \<Rightarrow>
   error + (Values \<times> AbstractHistogram) \<times> IBooker" where
  "save_entry hm makePath e iBooker =
     (if me (snd e) \<noteq> None then Inr (e, iBooker)
      else if bookUndefined hm \<and> th1 (snd e) = None
      then Inl (AssertionFailed ''Missing histogram. Something is broken.'')
      else case th1 (snd e) of
             None \<Rightarrow> Inr (e, iBooker)
           | Some h \<Rightarrow>
               (let m0 = (if GetDimension h = 1 then new_TH1F (GetName h) (XNbins h)
                          else new_TH2F (GetName h) (XNbins h) (YNbins h))
                in case Add m0 h of
                     Inl err \<Rightarrow> Inl err
                   | Inr m \<Rightarrow>
                       Inr ((fst e, (snd e)\<lparr>me := Some m, th1 := Some m\<rparr>),
                            iBooker @ [(makePath (fst e), m0)])))"

fun executeSave ::
  "HistogramManager \<Rightarrow> (Values \<Rightarrow> string) \<Rightarrow> SummationStep \<Rightarrow> Table \<Rightarrow> IBooker \<Rightarrow>
   error + Table \<times> IBooker" where
  "executeSave hm makePath step [] iBooker = Inr ([], iBooker)"
| "executeSave hm makePath step (e # t) iBooker =
     (case save_entry hm makePath e iBooker of
        Inl err \<Rightarrow> Inl err
      | Inr (e', iBooker') \<Rightarrow>
          (case executeSave hm makePath step t iBooker' of
             Inl err \<Rightarrow> Inl err
           | Inr (t', iBooker'') \<Rightarrow> Inr (e' # t', iBooker'')))"

subsection \<open>executeGroupBy\<close>

text \<open>One turn of the loop, on the Table \<open>out\<close> built so far. \<^verbatim>\<open>th1->Clone()\<close> of a
  null \<^verbatim>\<open>th1\<close> is undefined behaviour; \<^verbatim>\<open>Add\<close> of a null pointer only prints an error.\<close>

definition groupby_entry ::
  "Column list \<Rightarrow> Table \<Rightarrow> Values \<times> AbstractHistogram \<Rightarrow> error + Table" where
  "groupby_entry cs out e =
     (let new_vals = regroup cs (fst e);
          new_histo = tbl_at out new_vals
      in case th1 new_histo of
           None \<Rightarrow>
             (case th1 (snd e) of
                None \<Rightarrow> Inl (UndefinedBehaviour ''null th1'')
              | Some h \<Rightarrow> Inr (tbl_put new_vals (new_histo\<lparr>th1 := Some (Clone h)\<rparr>) out))
         | Some g \<Rightarrow>
             (case th1 (snd e) of
                None \<Rightarrow> Inr (tbl_put new_vals new_histo out)
              | Some h \<Rightarrow>
                  (case Add g h of
                     Inl err \<Rightarrow> Inl err
                   | Inr g' \<Rightarrow> Inr (tbl_put new_vals (new_histo\<lparr>th1 := Some g'\<rparr>) out))))"

fun groupby_loop :: "Column list \<Rightarrow> Table \<Rightarrow> Table \<Rightarrow> error + Table" where
  "groupby_loop cs [] out = Inr out"
| "groupby_loop cs (e # t) out =
     (case groupby_entry cs out e of
        Inl err \<Rightarrow> Inl err
      | Inr out' \<Rightarrow> groupby_loop cs t out')"

definition executeGroupBy :: "SummationStep \<Rightarrow> Table \<Rightarrow> error + Table" where
  "executeGroupBy step t = groupby_loop (columns step) t []"

subsection \<open>executeReduce\<close>

text \<open>\<^verbatim>\<open>edm::LogError\<close> reports and returns: the report is appended to a log.\<close>

datatype log_entry = LogError string string

definition reduce_entry ::
  "ROOT \<Rightarrow> SummationStep \<Rightarrow> log_entry list \<times> Table \<Rightarrow> Values \<times> AbstractHistogram \<Rightarrow>
   error + log_entry list \<times> Table" where
  "reduce_entry R step st e =
     (case th1 (snd e) of
        None \<Rightarrow> Inl (UndefinedBehaviour ''null th1'')
      | Some h \<Rightarrow>
          (let new_histo = tbl_at (snd st) (fst e);
               (reduced_quantity, name, lg) =
                 (if arg step = ''MEAN'' then (GetMean R h, ''mean_'' @ GetName h, fst st)
                  else if arg step = ''COUNT'' then (GetEntries h, ''num_'' @ GetName h, fst st)
                  else (0, GetName h,
                        fst st @ [LogError ''HistogramManager''
                          (''+++ Reduction '' @ [CHR 0x27] @ arg step @
                           '' not yet implemented'' @ [CHR 0x0A])]))
           in case SetBinContent (new_TH1F name 1) 1 reduced_quantity of
                Inl err \<Rightarrow> Inl err
              | Inr H \<Rightarrow> Inr (lg, tbl_put (fst e) (new_histo\<lparr>th1 := Some H\<rparr>) (snd st))))"

fun reduce_loop ::
  "ROOT \<Rightarrow> SummationStep \<Rightarrow> Table \<Rightarrow> log_entry list \<times> Table \<Rightarrow> error + log_entry list \<times> Table" where
  "reduce_loop R step [] st = Inr st"
| "reduce_loop R step (e # t) st =
     (case reduce_entry R step st e of
        Inl err \<Rightarrow> Inl err
      | Inr st' \<Rightarrow> reduce_loop R step t st')"

definition executeReduce ::
  "ROOT \<Rightarrow> SummationStep \<Rightarrow> Table \<Rightarrow> error + log_entry list \<times> Table" where
  "executeReduce R step t = reduce_loop R step t ([], [])"

subsection \<open>executeExtend\<close>

text \<open>The first pass: \<^verbatim>\<open>nbins[new_vals] += ...->GetNbins()\<close> over the Table, an \<^verbatim>\<open>int\<close>
  sum.\<close>

fun extend_nbins ::
  "Column \<Rightarrow> bool \<Rightarrow> Table \<Rightarrow> (Values \<Rightarrow> nat) \<Rightarrow> error + (Values \<Rightarrow> nat)" where
  "extend_nbins c isX [] nbins = Inr nbins"
| "extend_nbins c isX (e # t) nbins =
     (case th1 (snd e) of
        None \<Rightarrow> Inl (AssertionFailed ''invalid histogram'')
      | Some h \<Rightarrow>
          (let n = nbins (erase (fst e) c) + (if isX then XNbins h else YNbins h)
           in if INT_MAX < int n then Inl (UndefinedBehaviour ''signed overflow'')
              else extend_nbins c isX t (nbins(erase (fst e) c := n))))"

text \<open>
  A \<^verbatim>\<open>const char*\<close>: the address of characters that are alive, or of characters whose
  storage has been released. Reading through the latter is undefined behaviour.
\<close>

datatype c_str = Alive string | Dangling

definition read_c_str :: "c_str \<Rightarrow> error + string" where
  "read_c_str p =
     (case p of Alive s \<Rightarrow> Inr s | Dangling \<Rightarrow> Inl (UndefinedBehaviour ''dangling pointer''))"

text \<open>
  The histogram booked for a resulting key when its first input arrives. Both branches
  of lines 536 to 546 assign to \<^verbatim>\<open>title\<close> the \<^verbatim>\<open>c_str()\<close> of a temporary \<^verbatim>\<open>std::string\<close>,
  which is destroyed at the end of the assignment; the constructors of lines 550 to 563
  read the title through that pointer.
\<close>

definition extend_book :: "bool \<Rightarrow> TH1 \<Rightarrow> nat \<Rightarrow> error + TH1" where
  "extend_book isX h n =
     (let title = Dangling in
      case read_c_str title of
        Inl err \<Rightarrow> Inl err
      | Inr _ \<Rightarrow>
          Inr (if GetDimension h = 1 \<and> isX then new_TH1F (GetName h) n
               else if isX then new_TH2F (GetName h) n (YNbins h)
               else new_TH2F (GetName h) (XNbins h) n))"

text \<open>``Now add data'': the three copy loops, with \<^verbatim>\<open>new_histo.count\<close> as the fill
  cursor. The pair is \<^verbatim>\<open>(*new_histo.th1, new_histo.count)\<close>; \<open>cursor_next\<close> is
  \<^verbatim>\<open>new_histo.count += 1\<close>.\<close>

definition cursor_next :: "TH1 \<times> int \<Rightarrow> error + TH1 \<times> int" where
  "cursor_next st =
     (if snd st = INT_MAX then Inl (UndefinedBehaviour ''signed overflow'')
      else Inr (fst st, snd st + 1))"

definition copy_1d :: "TH1 \<Rightarrow> TH1 \<times> int \<Rightarrow> error + TH1 \<times> int" where
  "copy_1d h st =
     fold_err (\<lambda>(H, cnt) i.
         case SetBinContent H cnt (GetBinContent h i) of
           Inl err \<Rightarrow> Inl err
         | Inr H' \<Rightarrow> cursor_next (H', cnt))
       st (map int [1..<Suc (XNbins h)])"

definition copy_2d_x :: "TH1 \<Rightarrow> TH1 \<times> int \<Rightarrow> error + TH1 \<times> int" where
  "copy_2d_x h st =
     fold_err (\<lambda>(H, cnt) i.
         case fold_err (\<lambda>H' j. SetBinContent2 H' cnt j (GetBinContent2 h i j)) H
                (map int [1..<Suc (YNbins h)]) of
           Inl err \<Rightarrow> Inl err
         | Inr H' \<Rightarrow> cursor_next (H', cnt))
       st (map int [1..<Suc (XNbins h)])"

definition copy_2d_y :: "TH1 \<Rightarrow> TH1 \<times> int \<Rightarrow> error + TH1 \<times> int" where
  "copy_2d_y h st =
     fold_err (\<lambda>(H, cnt) j.
         case fold_err (\<lambda>H' i. SetBinContent2 H' i cnt (GetBinContent2 h i j)) H
                (map int [1..<Suc (XNbins h)]) of
           Inl err \<Rightarrow> Inl err
         | Inr H' \<Rightarrow> cursor_next (H', cnt))
       st (map int [1..<Suc (YNbins h)])"

definition extend_copy :: "bool \<Rightarrow> TH1 \<Rightarrow> TH1 \<times> int \<Rightarrow> error + TH1 \<times> int" where
  "extend_copy isX h st =
     (if GetDimension (fst st) = 1 then copy_1d h st
      else if isX then copy_2d_x h st
      else copy_2d_y h st)"

text \<open>One turn of the second loop, on the Table \<open>out\<close> built so far.\<close>

definition extend_entry ::
  "Column \<Rightarrow> bool \<Rightarrow> (Values \<Rightarrow> nat) \<Rightarrow> Table \<Rightarrow> Values \<times> AbstractHistogram \<Rightarrow> error + Table" where
  "extend_entry c isX nbins out e =
     (let new_vals = erase (fst e) c in
      case th1 (snd e) of
        None \<Rightarrow> Inl (AssertionFailed ''th1'')
      | Some h \<Rightarrow>
          (let new_histo = tbl_at out new_vals in
           case (case th1 new_histo of
                   None \<Rightarrow>
                     (case extend_book isX h (nbins new_vals) of
                        Inl err \<Rightarrow> Inl err
                      | Inr H \<Rightarrow> Inr (H, 1))
                 | Some H \<Rightarrow> Inr (H, count new_histo)) of
             Inl err \<Rightarrow> Inl err
           | Inr st0 \<Rightarrow>
               (case extend_copy isX h st0 of
                  Inl err \<Rightarrow> Inl err
                | Inr (H1, cnt1) \<Rightarrow>
                    Inr (tbl_put new_vals (new_histo\<lparr>th1 := Some H1, count := cnt1\<rparr>) out))))"

fun extend_loop ::
  "Column \<Rightarrow> bool \<Rightarrow> (Values \<Rightarrow> nat) \<Rightarrow> Table \<Rightarrow> Table \<Rightarrow> error + Table" where
  "extend_loop c isX nbins [] out = Inr out"
| "extend_loop c isX nbins (e # t) out =
     (case extend_entry c isX nbins out e of
        Inl err \<Rightarrow> Inl err
      | Inr out' \<Rightarrow> extend_loop c isX nbins t out')"

text \<open>\<^verbatim>\<open>step.columns.at(0)\<close> is evaluated inside the loops: an empty Table never reaches
  it.\<close>

definition executeExtend :: "SummationStep \<Rightarrow> Table \<Rightarrow> bool \<Rightarrow> error + Table" where
  "executeExtend step t isX =
     (case t of
        [] \<Rightarrow> Inr []
      | _ # _ \<Rightarrow>
          (case columns step of
             [] \<Rightarrow> Inl (OutOfRange ''columns'')
           | c # _ \<Rightarrow>
               (case extend_nbins c isX t (\<lambda>_. 0) of
                  Inl err \<Rightarrow> Inl err
                | Inr nbins \<Rightarrow> extend_loop c isX nbins t [])))"

section \<open>Notions used in the statements and proofs\<close>

text \<open>What a REDUCE step with an unsupported reduction name leaves of an entry: a
  one-bin histogram holding 0, under the entry's name.\<close>

definition reduced0 :: "Values \<times> AbstractHistogram \<Rightarrow> Values \<times> AbstractHistogram" where
  "reduced0 e = (fst e, \<lparr>count = 0, me = None, th1 = Some
      \<lparr>GetName = GetName (the (th1 (snd e))), GetDimension = 1, XNbins = 1, YNbins = 1,
       cells = [0, 0, 0], GetEntries = 1\<rparr>\<rparr>)"

text \<open>The key under which a walk selects its accumulator, read off the program: the
  key when the walk reaches a COUNT step that takes the increment path, the key after
  all EXTEND steps otherwise. \<open>count_path\<close> says that the program has a COUNT step of
  the stage whose successor is tagged \<^verbatim>\<open>STAGE1_2\<close>.\<close>

fun target :: "Stage \<Rightarrow> SummationStep list \<Rightarrow> Values \<Rightarrow> Values" where
  "target stg [] vs = vs"
| "target stg (step # rest) vs =
     (if stage step \<noteq> stg then target stg rest vs
      else case type step of
        COUNT \<Rightarrow>
          (case rest of
             [] \<Rightarrow> vs
           | nxt # _ \<Rightarrow> if stage nxt = STAGE1_2 then vs else target stg rest vs)
      | EXTEND_X \<Rightarrow> (case columns step of [] \<Rightarrow> vs | c # _ \<Rightarrow> target stg rest (erase vs c))
      | EXTEND_Y \<Rightarrow> (case columns step of [] \<Rightarrow> vs | c # _ \<Rightarrow> target stg rest (erase vs c))
      | _ \<Rightarrow> target stg rest vs)"

fun count_path :: "Stage \<Rightarrow> SummationStep list \<Rightarrow> bool" where
  "count_path stg [] \<longleftrightarrow> False"
| "count_path stg (step # rest) \<longleftrightarrow>
     (stage step = stg \<and> type step = COUNT \<and> (case rest of [] \<Rightarrow> False | nxt # _ \<Rightarrow> stage nxt = STAGE1_2))
     \<or> count_path stg rest"

text \<open>A cache slot is sound for a program, a key and a Table when it is null, or the
  address of the node of the program's target key, which is booked unless the program
  counts per event.\<close>

definition fastpath_ok :: "SummationSpecification \<Rightarrow> Values \<Rightarrow> Table \<Rightarrow> ptr \<Rightarrow> bool" where
  "fastpath_ok s K t p \<longleftrightarrow>
     p = Null \<or>
     (p = Node (target STAGE1 (steps s) K) \<and>
      (\<exists>a. map_of t (target STAGE1 (steps s) K) = Some a \<and>
           (count_path STAGE1 (steps s) \<or> booked a)))"


text \<open>The distributions of the entries of a Table whose key regroups to \<open>G\<close>, in Table
  order, and their bin-wise sum.\<close>

definition group_members :: "Column list \<Rightarrow> Values \<Rightarrow> Table \<Rightarrow> TH1 list" where
  "group_members cs G t =
     map (\<lambda>e. the (th1 (snd e))) (filter (\<lambda>e. regroup cs (fst e) = G) t)"

definition binwise_sum :: "TH1 list \<Rightarrow> real list" where
  "binwise_sum hs = map (\<lambda>b. \<Sum>h\<leftarrow>hs. cells h ! b) [0..<length (cells (hd hs))]"

text \<open>Every entry holds a distribution, and entries that regroup to one key have the
  same numbers of bins.\<close>

definition groups_agree :: "Column list \<Rightarrow> Table \<Rightarrow> bool" where
  "groups_agree cs t \<longleftrightarrow>
     (\<forall>e\<in>set t. \<forall>e'\<in>set t. regroup cs (fst e) = regroup cs (fst e') \<longrightarrow>
        (\<exists>h h'. th1 (snd e) = Some h \<and> th1 (snd e') = Some h' \<and> same_bins h h'))"


section \<open>Example inputs\<close>

definition ex_count :: SummationStep where
  "ex_count = \<lparr>type = COUNT, stage = STAGE1, columns = [1, 2], arg = ''''\<rparr>"

definition ex_w :: walk_state where
  "ex_w = \<lparr>st_x = 4, st_y = 0, st_dimensions = 1, st_significantvalues = [(1, 7), (2, 3)],
          st_t = [], st_fastpath = Null\<rparr>"

definition ex_hm :: HistogramManager where
  "ex_hm = \<lparr>enabled = True, bookUndefined = False, dimensions = 1\<rparr>"

definition ex_R :: ROOT where
  "ex_R = \<lparr>Fill1 = (\<lambda>x h. h\<lparr>cells := cells h @ [x], GetEntries := GetEntries h + 1\<rparr>),
           Fill2 = (\<lambda>x y h. h\<lparr>cells := cells h @ [x, y], GetEntries := GetEntries h + 1\<rparr>),
           GetMean = (\<lambda>h. 0)\<rparr>"

definition ex_save :: "Stage \<Rightarrow> SummationStep" where
  "ex_save stg = \<lparr>type = SAVE, stage = stg, columns = [], arg = []\<rparr>"

definition ex_h1 :: "string \<Rightarrow> real list \<Rightarrow> TH1" where
  "ex_h1 nm bins =
     \<lparr>GetName = nm, GetDimension = 1, XNbins = length bins, YNbins = 1,
      cells = 0 # bins @ [0], GetEntries = real (length bins)\<rparr>"


definition ex_acc :: "TH1 \<Rightarrow> AbstractHistogram" where
  "ex_acc h = \<lparr>count = 0, me = None, th1 = Some h\<rparr>"

definition ex_step :: "Type \<Rightarrow> Column list \<Rightarrow> string \<Rightarrow> SummationStep" where
  "ex_step ty cs a = \<lparr>type = ty, stage = STAGE2, columns = cs, arg = a\<rparr>"

definition ex_extend_spec :: SummationSpecification where
  "ex_extend_spec = \<lparr>steps = [ex_count, \<lparr>type = EXTEND_X, stage = STAGE1, columns = [2], arg = []\<rparr>]\<rparr>"

definition ex_booked :: "string \<Rightarrow> AbstractHistogram" where
  "ex_booked nm = \<lparr>count = 0, me = Some (new_TH1F nm 1), th1 = None\<rparr>"


definition ex_two :: Table where
  "ex_two = [([(1, 7), (2, 10)], ex_acc (ex_h1 ''a'' [5])), ([(1, 7), (2, 20)], ex_acc (ex_h1 ''b'' [3]))]"

definition ex_three :: Table where
  "ex_three = [([(1, 7), (2, 10)], ex_acc (ex_h1 ''a'' [1, 2])),
               ([(1, 7), (2, 20)], ex_acc (ex_h1 ''b'' [3, 4, 5])),
               ([(1, 7), (2, 30)], ex_acc (ex_h1 ''c'' [6]))]"



section \<open>Properties\<close>

subsection \<open>Single precision\<close>

lemma round_even_int: "round_even (of_int n) = n"
  by (simp add: round_even_def)

lemma float_ulp_binade:
  assumes "2 powi e \<le> \<bar>x\<bar>" and "\<bar>x\<bar> < 2 powi (e + 1)" and "- 126 \<le> e"
  shows "float_ulp x = 2 powi (e - 23)"
proof -
  have p: "(0::real) < 2 powi e" by simp
  with assms(1) have pos: "0 < \<bar>x\<bar>" by linarith
  have 1: "(2::real) powr real_of_int e = 2 powi e"
    by (rule powr_real_of_int') simp_all
  have 2: "(2::real) powr real_of_int (e + 1) = 2 powi (e + 1)"
    by (rule powr_real_of_int') simp_all
  have "2 powr real_of_int e \<le> \<bar>x\<bar> \<and> \<bar>x\<bar> < 2 powr real_of_int (e + 1)"
    unfolding 1 2 using assms(1,2) by simp
  then have "\<lfloor>log 2 \<bar>x\<bar>\<rfloor> = e"
    using floor_log_eq_powr_iff[OF pos, of 2 e] by simp
  with assms(3) show ?thesis by (simp add: float_ulp_def)
qed

lemma nearest_float_multiple:
  assumes "2 powi e \<le> \<bar>x\<bar>" and "\<bar>x\<bar> < 2 powi (e + 1)" and "- 126 \<le> e"
    and "x = of_int m * 2 powi (e - 23)"
  shows "nearest_float x = x"
proof -
  have p: "(0::real) < 2 powi e" by simp
  with assms(1) have nz: "x \<noteq> 0" by linarith
  note u = float_ulp_binade[OF assms(1,2,3)]
  have "x / float_ulp x = of_int m"
    unfolding u by (subst assms(4)) simp
  then have "round_even (x / float_ulp x) = m" by (simp add: round_even_int)
  with nz show ?thesis unfolding nearest_float_def u using assms(4) by simp
qed

lemma nearest_float_tie:
  assumes "2 powi e \<le> \<bar>x\<bar>" and "\<bar>x\<bar> < 2 powi (e + 1)" and "- 126 \<le> e"
    and "x = (of_int m + 1 / 2) * 2 powi (e - 23)"
  shows "nearest_float x = of_int (if even m then m else m + 1) * 2 powi (e - 23)"
proof -
  have p: "(0::real) < 2 powi e" by simp
  with assms(1) have nz: "x \<noteq> 0" by linarith
  note u = float_ulp_binade[OF assms(1,2,3)]
  have q: "x / float_ulp x = of_int m + 1 / 2"
    unfolding u by (subst assms(4)) simp
  have "\<lfloor>of_int m + (1 / 2 :: real)\<rfloor> = m" by linarith
  then have "round_even (of_int m + 1 / 2) = (if even m then m else m + 1)"
    by (simp add: round_even_def Let_def)
  with nz q show ?thesis unfolding nearest_float_def u by simp
qed

lemma powi_24: "(2::real) powi 24 = 16777216" "(2::real) powi (24 + 1) = 33554432"
  "(2::real) powi (24 - 23) = 2"
  by (simp_all add: power_int_def)

lemma nf_16777217: "nearest_float 16777217 = 16777216"
proof -
  have "nearest_float 16777217 = of_int (if even (8388608::int) then 8388608 else 8388608 + 1) * 2 powi (24 - 23)"
  proof (rule nearest_float_tie)
    show "2 powi 24 \<le> \<bar>16777217::real\<bar>" unfolding powi_24 by simp
    show "\<bar>16777217::real\<bar> < 2 powi (24 + 1)" unfolding powi_24 by simp
    show "- 126 \<le> (24::int)" by simp
    show "(16777217::real) = (of_int 8388608 + 1 / 2) * 2 powi (24 - 23)" unfolding powi_24 by simp
  qed
  then show ?thesis unfolding powi_24 by simp
qed

lemma nf_16777218: "nearest_float 16777218 = 16777218"
proof (rule nearest_float_multiple[where e = 24 and m = 8388609])
  show "2 powi 24 \<le> \<bar>16777218::real\<bar>" unfolding powi_24 by simp
  show "\<bar>16777218::real\<bar> < 2 powi (24 + 1)" unfolding powi_24 by simp
  show "- 126 \<le> (24::int)" by simp
  show "(16777218::real) = of_int 8388609 * 2 powi (24 - 23)" unfolding powi_24 by simp
qed

lemma nearest_float_int:
  assumes "\<bar>n\<bar> \<le> 2 ^ 24"
  shows "nearest_float (of_int n) = of_int n"
proof (cases "n = 0")
  case True
  then show ?thesis by (simp add: nearest_float_def)
next
  case False
  define x :: real where "x = of_int n"
  define e where "e = \<lfloor>log 2 \<bar>x\<bar>\<rfloor>"
  from False have "1 \<le> \<bar>n\<bar>" by linarith
  then have x1: "1 \<le> \<bar>x\<bar>" unfolding x_def by (metis of_int_1_le_iff of_int_abs)
  then have pos: "0 < \<bar>x\<bar>" by linarith
  have 1: "(2::real) powr real_of_int e = 2 powi e"
    by (rule powr_real_of_int') simp_all
  have 2: "(2::real) powr real_of_int (e + 1) = 2 powi (e + 1)"
    by (rule powr_real_of_int') simp_all
  from e_def have "2 powr real_of_int e \<le> \<bar>x\<bar> \<and> \<bar>x\<bar> < 2 powr real_of_int (e + 1)"
    using floor_log_eq_powr_iff[OF pos, of 2 e] by simp
  then have b: "2 powi e \<le> \<bar>x\<bar>" "\<bar>x\<bar> < 2 powi (e + 1)" unfolding 1 2 by simp_all
  have e0: "0 \<le> e" unfolding e_def using x1 by (intro zero_le_floor[THEN iffD2]) simp
  then have e126: "- 126 \<le> e" by simp
  from assms have "of_int \<bar>n\<bar> \<le> (of_int (2 ^ 24) :: real)" by (subst of_int_le_iff)
  then have xle: "\<bar>x\<bar> \<le> 2 ^ 24" unfolding x_def by simp
  have e24: "e \<le> 24"
  proof (rule ccontr)
    assume "\<not> e \<le> 24"
    then have "25 \<le> e" by simp
    then have "(2::real) powi 25 \<le> 2 powi e" by (intro power_int_increasing) simp_all
    moreover have "(2::real) powi 25 = 33554432" by (simp add: power_int_def)
    ultimately have "(33554432::real) \<le> 2 powi e" by simp
    with b(1) xle show False by simp
  qed
  show ?thesis
  proof (cases "e = 24")
    case True
    from b(1) have "16777216 \<le> \<bar>x\<bar>" unfolding True powi_24 .
    with xle have ax: "\<bar>x\<bar> = 16777216" by simp
    have u: "(2::real) powi (e - 23) = 2" using True by (simp add: powi_24)
    have "x = 16777216 \<or> x = - 16777216" using ax by linarith
    then have "x = of_int (if 0 \<le> x then 8388608 else - 8388608) * 2 powi (e - 23)"
      unfolding u by auto
    from nearest_float_multiple[OF b e126 this] show ?thesis by (simp add: x_def)
  next
    case False
    with e24 have lt: "e \<le> 23" by simp
    have "(2::real) powi (e - 23) * 2 ^ nat (23 - e) = 1"
    proof -
      have a: "(2::real) ^ nat (23 - e) = 2 powi (23 - e)" using lt by (simp add: power_int_def)
      have "(2::real) powi ((e - 23) + (23 - e)) = 2 powi (e - 23) * 2 powi (23 - e)"
        by (rule power_int_add) simp
      then show ?thesis unfolding a by simp
    qed
    then have "of_int n * (2 ^ nat (23 - e) * 2 powi (e - 23)) = (of_int n :: real)"
      by (simp only: mult.commute[of "2 ^ nat (23 - e)"] mult_1_right)
    then have "x = of_int (n * 2 ^ nat (23 - e)) * 2 powi (e - 23)"
      by (simp only: x_def of_int_mult of_int_power of_int_numeral mult.assoc)
    from nearest_float_multiple[OF b e126 this] show ?thesis by (simp add: x_def)
  qed
qed

lemma nearest_float_0: "nearest_float 0 = 0"
  by (simp add: nearest_float_def)

lemma Float_t_0: "Float_t 0 = Inr 0"
  by (simp add: Float_t_def nearest_float_0 FLT_MAX_def)

lemma nearest_float_whole:
  assumes "x \<in> \<int>" and "\<bar>x\<bar> \<le> 2 ^ 24"
  shows "nearest_float x = x"
proof -
  from assms(1) obtain n where x: "x = of_int n" by (rule Ints_cases)
  from assms(2) have "of_int \<bar>n\<bar> \<le> (of_int (2 ^ 24) :: real)" unfolding x by simp
  then have "\<bar>n\<bar> \<le> 2 ^ 24" by (subst (asm) of_int_le_iff)
  from nearest_float_int[OF this] x show ?thesis by simp
qed

lemma Float_t_whole:
  assumes "x \<in> \<int>" and "\<bar>x\<bar> \<le> 2 ^ 24"
  shows "Float_t x = Inr x"
proof -
  have "(2::real) ^ 24 \<le> FLT_MAX" by (simp add: FLT_MAX_def)
  with assms(2) have "\<bar>x\<bar> \<le> FLT_MAX" by linarith
  then show ?thesis by (simp add: Float_t_def nearest_float_whole[OF assms])
qed

subsection \<open>The Table\<close>

lemma tbl_put_twice: "tbl_put k a (tbl_put k b t) = tbl_put k a t"
  by (induction t) auto

lemma map_of_tbl_put: "map_of (tbl_put k a t) = (map_of t)(k \<mapsto> a)"
  by (induction t) (auto simp: fun_eq_iff)

lemma tbl_put_index: "tbl_put k a (tbl_index t k) = tbl_put k a t"
  by (simp add: tbl_index_def tbl_put_twice split: option.splits)

lemma map_of_tbl_index: "map_of (tbl_index t k) k = Some (tbl_at t k)"
  by (simp add: tbl_index_def tbl_at_def map_of_tbl_put split: option.splits)

lemma count_increment_Null:
  assumes "st_fastpath w = Null" "count (tbl_at (st_t w) (st_significantvalues w)) \<noteq> INT_MAX"
  shows "count_increment w = Inr (w\<lparr>st_t := tbl_put (st_significantvalues w)
            ((tbl_at (st_t w) (st_significantvalues w))\<lparr>count := count (tbl_at (st_t w) (st_significantvalues w)) + 1\<rparr>) (st_t w),
          st_fastpath := Node (st_significantvalues w)\<rparr>)"
  using assms by (simp add: count_increment_def Let_def map_of_tbl_index tbl_put_index)

subsection \<open>The COUNT step\<close>

text \<open>
  C3 (as amended). A COUNT step of the requested stage with a step after it: the
  per-event increment path is taken exactly when the stage of the next step is
  \<^verbatim>\<open>STAGE1_2\<close>, whatever the type of that step; otherwise the step only resets x, y and
  the dimensionality to 0 and the walk goes on. On the increment path the executor
  returns at once, x, y and the dimensionality reset, with one Counter incremented by
  1: with a null cache slot the Counter of the current key, created if absent, which
  the slot then points at; with a slot that points at a node of the Table the Counter
  of that node; with a slot that points at a copy the Counter of the copy. The only
  failures on that path are the signed overflow of a Counter at \<^verbatim>\<open>INT_MAX\<close> and a slot
  that points at no node.
\<close>

theorem count_step_lookahead:
  assumes "type step = COUNT" and "stage step = stg"
  shows "(stage nxt \<noteq> STAGE1_2 \<longrightarrow>
            exec_step stg step (nxt # rest) w =
              Inr (Continue (w\<lparr>st_x := 0, st_y := 0, st_dimensions := 0\<rparr>))) \<and>
         (stage nxt = STAGE1_2 \<longrightarrow> st_fastpath w = Null \<longrightarrow>
            count (tbl_at (st_t w) (st_significantvalues w)) \<noteq> INT_MAX \<longrightarrow>
            exec_step stg step (nxt # rest) w =
              Inr (Return (w\<lparr>st_x := 0, st_y := 0, st_dimensions := 0,
                     st_t := tbl_put (st_significantvalues w)
                       ((tbl_at (st_t w) (st_significantvalues w))
                          \<lparr>count := count (tbl_at (st_t w) (st_significantvalues w)) + 1\<rparr>)
                       (st_t w),
                     st_fastpath := Node (st_significantvalues w)\<rparr>))) \<and>
         (stage nxt = STAGE1_2 \<longrightarrow> st_fastpath w = Node k \<longrightarrow>
            map_of (st_t w) k = Some a \<longrightarrow> count a \<noteq> INT_MAX \<longrightarrow>
            exec_step stg step (nxt # rest) w =
              Inr (Return (w\<lparr>st_x := 0, st_y := 0, st_dimensions := 0,
                     st_t := tbl_put k (a\<lparr>count := count a + 1\<rparr>) (st_t w)\<rparr>))) \<and>
         (stage nxt = STAGE1_2 \<longrightarrow> st_fastpath w = Local k a \<longrightarrow> count a \<noteq> INT_MAX \<longrightarrow>
            exec_step stg step (nxt # rest) w =
              Inr (Return (w\<lparr>st_x := 0, st_y := 0, st_dimensions := 0,
                     st_fastpath := Local k (a\<lparr>count := count a + 1\<rparr>)\<rparr>))) \<and>
         (stage nxt = STAGE1_2 \<longrightarrow>
            (\<forall>w'. exec_step stg step (nxt # rest) w \<noteq> Inr (Continue w')) \<and>
            (\<forall>e. exec_step stg step (nxt # rest) w = Inl e \<longrightarrow>
               e = UndefinedBehaviour ''signed overflow'' \<or>
               e = UndefinedBehaviour ''stale fastpath''))"
proof -
  let ?w0 = "w\<lparr>st_x := 0, st_y := 0, st_dimensions := 0\<rparr>"
  have a: "exec_step stg step (nxt # rest) w = Inr (Continue ?w0)"
    if "stage nxt \<noteq> STAGE1_2"
    using that assms by (simp add: exec_step_def Let_def)
  have b: "exec_step stg step (nxt # rest) w =
      Inr (Return (w\<lparr>st_x := 0, st_y := 0, st_dimensions := 0,
             st_t := tbl_put (st_significantvalues w)
               ((tbl_at (st_t w) (st_significantvalues w))
                  \<lparr>count := count (tbl_at (st_t w) (st_significantvalues w)) + 1\<rparr>)
               (st_t w),
             st_fastpath := Node (st_significantvalues w)\<rparr>))"
    if n: "stage nxt = STAGE1_2" and f: "st_fastpath w = Null"
      and c: "count (tbl_at (st_t w) (st_significantvalues w)) \<noteq> INT_MAX"
  proof -
    have "count_increment ?w0 = Inr (?w0\<lparr>st_t := tbl_put (st_significantvalues ?w0)
            ((tbl_at (st_t ?w0) (st_significantvalues ?w0))\<lparr>count := count (tbl_at (st_t ?w0) (st_significantvalues ?w0)) + 1\<rparr>) (st_t ?w0),
          st_fastpath := Node (st_significantvalues ?w0)\<rparr>)"
      by (rule count_increment_Null) (use f c in simp_all)
    with assms n show ?thesis by (simp add: exec_step_def Let_def)
  qed
  have c: "exec_step stg step (nxt # rest) w =
      Inr (Return (w\<lparr>st_x := 0, st_y := 0, st_dimensions := 0,
             st_t := tbl_put k (a\<lparr>count := count a + 1\<rparr>) (st_t w)\<rparr>))"
    if "stage nxt = STAGE1_2" "st_fastpath w = Node k" "map_of (st_t w) k = Some a"
      "count a \<noteq> INT_MAX"
    using that assms by (simp add: exec_step_def Let_def count_increment_def)
  have d: "exec_step stg step (nxt # rest) w =
      Inr (Return (w\<lparr>st_x := 0, st_y := 0, st_dimensions := 0,
             st_fastpath := Local k (a\<lparr>count := count a + 1\<rparr>)\<rparr>))"
    if "stage nxt = STAGE1_2" "st_fastpath w = Local k a" "count a \<noteq> INT_MAX"
    using that assms by (simp add: exec_step_def Let_def count_increment_def)
  have e: "\<forall>w'. exec_step stg step (nxt # rest) w \<noteq> Inr (Continue w')"
    if "stage nxt = STAGE1_2"
    using that assms by (auto simp: exec_step_def Let_def split: sum.splits)
  have f: "\<forall>e. exec_step stg step (nxt # rest) w = Inl e \<longrightarrow>
               e = UndefinedBehaviour ''signed overflow'' \<or>
               e = UndefinedBehaviour ''stale fastpath''"
    if "stage nxt = STAGE1_2"
    using that assms
    by (auto simp: exec_step_def Let_def count_increment_def map_of_tbl_index
        split: sum.splits ptr.splits option.splits if_splits)
  from a b c d e f show ?thesis by blast
qed

theorem count_step_lookahead_witness:
  "exec_step STAGE1 ex_count [\<lparr>type = GROUPBY, stage = STAGE1_2, columns = [1], arg = []\<rparr>] ex_w =
     Inr (Return (ex_w\<lparr>st_x := 0, st_y := 0, st_dimensions := 0,
        st_t := [([(1, 7), (2, 3)], \<lparr>count = 1, me = None, th1 = None\<rparr>)],
        st_fastpath := Node [(1, 7), (2, 3)]\<rparr>)) \<and>
   exec_step STAGE1 ex_count [\<lparr>type = GROUPBY, stage = STAGE1_2, columns = [1], arg = []\<rparr>]
       (ex_w\<lparr>st_t := [([(1, 7), (2, 3)], \<lparr>count = 1, me = None, th1 = None\<rparr>)],
             st_fastpath := Node [(1, 7), (2, 3)]\<rparr>) =
     Inr (Return (ex_w\<lparr>st_x := 0, st_y := 0, st_dimensions := 0,
        st_t := [([(1, 7), (2, 3)], \<lparr>count = 2, me = None, th1 = None\<rparr>)],
        st_fastpath := Node [(1, 7), (2, 3)]\<rparr>)) \<and>
   exec_step STAGE1 ex_count [\<lparr>type = GROUPBY, stage = STAGE1_2, columns = [1], arg = []\<rparr>]
       (ex_w\<lparr>st_fastpath := Local [(1, 7), (2, 3)] \<lparr>count = 5, me = None, th1 = None\<rparr>\<rparr>) =
     Inr (Return (ex_w\<lparr>st_x := 0, st_y := 0, st_dimensions := 0,
        st_fastpath := Local [(1, 7), (2, 3)] \<lparr>count = 6, me = None, th1 = None\<rparr>\<rparr>)) \<and>
   exec_step STAGE1 ex_count [\<lparr>type = EXTEND_X, stage = STAGE1, columns = [1], arg = []\<rparr>] ex_w =
     Inr (Continue (ex_w\<lparr>st_x := 0, st_y := 0, st_dimensions := 0\<rparr>))"
  using count_step_lookahead [where step = ex_count and stg = STAGE1
      and nxt = "\<lparr>type = GROUPBY, stage = STAGE1_2, columns = [1], arg = []\<rparr>"
      and w = ex_w and rest = "[]"]
    count_step_lookahead [where step = ex_count and stg = STAGE1
      and nxt = "\<lparr>type = GROUPBY, stage = STAGE1_2, columns = [1], arg = []\<rparr>"
      and w = "ex_w\<lparr>st_t := [([(1, 7), (2, 3)], \<lparr>count = 1, me = None, th1 = None\<rparr>)],
             st_fastpath := Node [(1, 7), (2, 3)]\<rparr>"
      and k = "[(1, 7), (2, 3)]" and a = "\<lparr>count = 1, me = None, th1 = None\<rparr>" and rest = "[]"]
    count_step_lookahead [where step = ex_count and stg = STAGE1
      and nxt = "\<lparr>type = GROUPBY, stage = STAGE1_2, columns = [1], arg = []\<rparr>"
      and w = "ex_w\<lparr>st_fastpath := Local [(1, 7), (2, 3)] \<lparr>count = 5, me = None, th1 = None\<rparr>\<rparr>"
      and k = "[(1, 7), (2, 3)]" and a = "\<lparr>count = 5, me = None, th1 = None\<rparr>" and rest = "[]"]
    count_step_lookahead [where step = ex_count and stg = STAGE1
      and nxt = "\<lparr>type = EXTEND_X, stage = STAGE1, columns = [1], arg = []\<rparr>"
      and w = ex_w and rest = "[]"]
  by (simp add: ex_count_def ex_w_def tbl_at_def empty_histogram_def INT_MAX_def)

text \<open>C3 as stated fails: the step after the COUNT is a SAVE, not a GROUPBY, tagged
  \<^verbatim>\<open>STAGE1_2\<close>, and the increment path is taken all the same.\<close>

theorem count_step_lookahead_counterexample:
  "type \<lparr>type = SAVE, stage = STAGE1_2, columns = [], arg = ''''\<rparr> \<noteq> GROUPBY \<and>
   exec_step STAGE1 ex_count [\<lparr>type = SAVE, stage = STAGE1_2, columns = [], arg = ''''\<rparr>] ex_w =
     Inr (Return (ex_w\<lparr>st_x := 0, st_y := 0, st_dimensions := 0,
        st_t := [([(1, 7), (2, 3)], \<lparr>count = 1, me = None, th1 = None\<rparr>)],
        st_fastpath := Node [(1, 7), (2, 3)]\<rparr>))"
  by (simp add: exec_step_def ex_count_def ex_w_def count_increment_def tbl_index_def
      empty_histogram_def INT_MAX_def Let_def)

subsection \<open>The walk and the final fill\<close>

lemma exec_step_Continue_table:
  "stg \<noteq> STAGE1_2 \<Longrightarrow> exec_step stg step rest w = Inr (Continue w') \<Longrightarrow>
     st_t w' = st_t w \<and> st_fastpath w' = st_fastpath w"
  by (auto simp: exec_step_def Let_def split: if_splits Type.splits list.splits sum.splits)

lemma walk_Continue_table:
  "stg \<noteq> STAGE1_2 \<Longrightarrow> walk stg ss w = Inr (Continue w') \<Longrightarrow>
     st_t w' = st_t w \<and> st_fastpath w' = st_fastpath w"
proof (induction ss arbitrary: w)
  case Nil
  then show ?case by simp
next
  case (Cons a ss)
  from Cons.prems(2) obtain w1 where e: "exec_step stg a ss w = Inr (Continue w1)"
    and r: "walk stg ss w1 = Inr (Continue w')"
    by (auto split: sum.splits flow.splits)
  from exec_step_Continue_table[OF Cons.prems(1) e] Cons.IH[OF Cons.prems(1) r]
  show ?case by simp
qed

text \<open>
  C7. After the step walk, with the cache slot empty and no booked histogram under the
  final key (no node, or a node with neither \<^verbatim>\<open>th1\<close> nor \<^verbatim>\<open>me\<close>): when
  \<^verbatim>\<open>bookUndefined\<close> is off the executor returns the state as the walk left it, so the
  sample is dropped and no node is created (in stage \<^verbatim>\<open>STAGE1\<close> the Table is the one the
  call was given); when it is on the call fails on the assertion.
\<close>

theorem unbooked_key_dropped_or_fatal:
  assumes "walk stg (steps s)
             \<lparr>st_x = x, st_y = y, st_dimensions = dimensions hm,
              st_significantvalues = K, st_t = t, st_fastpath = fastpath\<rparr> = Inr (Continue w)"
    and "st_fastpath w = Null"
    and "\<not> (\<exists>a. map_of (st_t w) (st_significantvalues w) = Some a \<and> booked a)"
  shows "executeStep1Spec hm R x y K s t stg fastpath =
           (if bookUndefined hm
            then Inl (AssertionFailed
              ''All histograms were booked but one is missing. This is a problem in the booking process.'')
            else Inr w) \<and>
         (stg \<noteq> STAGE1_2 \<longrightarrow> st_t w = t)"
proof
  have "fill_final hm R w =
          (if bookUndefined hm
            then Inl (AssertionFailed
              ''All histograms were booked but one is missing. This is a problem in the booking process.'')
            else Inr w)"
    using assms(2,3) by (auto simp: fill_final_def booked_def split: option.splits)
  with assms(1) show "executeStep1Spec hm R x y K s t stg fastpath =
           (if bookUndefined hm
            then Inl (AssertionFailed
              ''All histograms were booked but one is missing. This is a problem in the booking process.'')
            else Inr w)"
    by (simp add: executeStep1Spec_def)
  show "stg \<noteq> STAGE1_2 \<longrightarrow> st_t w = t"
    using walk_Continue_table[OF _ assms(1)] by simp
qed

theorem unbooked_key_dropped_or_fatal_witness:
  "executeStep1Spec ex_hm ex_R 4 0 [(1, 7), (2, 3)]
      \<lparr>steps = [ex_save STAGE1]\<rparr>
      [([(1, 7)], \<lparr>count = 0, me = None, th1 = None\<rparr>)] STAGE1 Null =
     Inr \<lparr>st_x = 4, st_y = 0, st_dimensions = 1, st_significantvalues = [(1, 7), (2, 3)],
          st_t = [([(1, 7)], \<lparr>count = 0, me = None, th1 = None\<rparr>)], st_fastpath = Null\<rparr> \<and>
   executeStep1Spec (ex_hm\<lparr>bookUndefined := True\<rparr>) ex_R 4 0 [(1, 7), (2, 3)]
      \<lparr>steps = [ex_save STAGE1]\<rparr>
      [([(1, 7)], \<lparr>count = 0, me = None, th1 = None\<rparr>)] STAGE1 Null =
     Inl (AssertionFailed
        ''All histograms were booked but one is missing. This is a problem in the booking process.'')"
  using unbooked_key_dropped_or_fatal [where stg = STAGE1 and hm = ex_hm and R = ex_R and x = 4 and y = 0
      and K = "[(1, 7), (2, 3)]" and fastpath = Null
      and s = "\<lparr>steps = [ex_save STAGE1]\<rparr>"
      and t = "[([(1, 7)], \<lparr>count = 0, me = None, th1 = None\<rparr>)]"
      and w = "\<lparr>st_x = 4, st_y = 0, st_dimensions = 1, st_significantvalues = [(1, 7), (2, 3)],
          st_t = [([(1, 7)], \<lparr>count = 0, me = None, th1 = None\<rparr>)], st_fastpath = Null\<rparr>"]
    unbooked_key_dropped_or_fatal [where stg = STAGE1 and hm = "ex_hm\<lparr>bookUndefined := True\<rparr>" and R = ex_R and x = 4 and y = 0
      and K = "[(1, 7), (2, 3)]" and fastpath = Null
      and s = "\<lparr>steps = [ex_save STAGE1]\<rparr>"
      and t = "[([(1, 7)], \<lparr>count = 0, me = None, th1 = None\<rparr>)]"
      and w = "\<lparr>st_x = 4, st_y = 0, st_dimensions = 1, st_significantvalues = [(1, 7), (2, 3)],
          st_t = [([(1, 7)], \<lparr>count = 0, me = None, th1 = None\<rparr>)], st_fastpath = Null\<rparr>"]
  by (simp add: ex_hm_def ex_save_def exec_step_def)

lemma walk_skip: "\<forall>p\<in>set pre. stage p \<noteq> stg \<Longrightarrow> walk stg (pre @ ss) w = walk stg ss w"
  by (induction pre) (auto simp: exec_step_def)

lemma exec_step_oor:
  "exec_step stg step rest w = Inl (OutOfRange ''steps'') \<Longrightarrow>
     rest = [] \<and> type step = COUNT \<and> stage step = stg"
  by (auto simp: exec_step_def Let_def count_increment_def read_count_def
      split: if_splits Type.splits list.splits sum.splits ptr.splits option.splits)

lemma walk_oor:
  "walk stg ss w = Inl (OutOfRange ''steps'') \<Longrightarrow>
     ss \<noteq> [] \<and> type (last ss) = COUNT \<and> stage (last ss) = stg"
proof (induction ss arbitrary: w)
  case Nil then show ?case by simp
next
  case (Cons a ss)
  show ?case
  proof (cases "exec_step stg a ss w")
    case (Inl e)
    with Cons.prems have "exec_step stg a ss w = Inl (OutOfRange ''steps'')" by simp
    from exec_step_oor[OF this] show ?thesis by simp
  next
    case (Inr f)
    show ?thesis
    proof (cases f)
      case (Continue w')
      with Inr Cons.prems have "walk stg ss w' = Inl (OutOfRange ''steps'')" by simp
      from Cons.IH[OF this] show ?thesis by simp
    next
      case (Return w')
      with Inr Cons.prems show ?thesis by simp
    qed
  qed
qed

lemma fill_through_oor: "fill_through f w \<noteq> Inl (OutOfRange m)"
  by (auto simp: fill_through_def split: ptr.splits option.splits)

lemma fill_final_oor: "fill_final hm R w \<noteq> Inl (OutOfRange m)"
  by (auto simp: fill_final_def Let_def fill_through_oor split: option.splits if_splits)

text \<open>
  C10. A COUNT step of the requested stage reads \<^verbatim>\<open>s.steps.at(i + 1)\<close>. When it is the
  last step the read is out of range (for the step alone, and for a whole call whose
  earlier steps belong to other stages); and a call fails with that
  \<^verbatim>\<open>std::out_of_range\<close> only when the last step of the program is a COUNT of the
  requested stage.
\<close>

theorem count_lookahead_in_bounds:
  "(type step = COUNT \<and> stage step = stg \<longrightarrow>
      exec_step stg step [] w = Inl (OutOfRange ''steps'')) \<and>
   ((\<forall>p\<in>set pre. stage p \<noteq> stg) \<and> type step = COUNT \<and> stage step = stg \<longrightarrow>
      executeStep1Spec hm R x y K \<lparr>steps = pre @ [step]\<rparr> t stg fastpath =
        Inl (OutOfRange ''steps'')) \<and>
   (executeStep1Spec hm R x y K s t stg fastpath = Inl (OutOfRange ''steps'') \<longrightarrow>
      steps s \<noteq> [] \<and> type (last (steps s)) = COUNT \<and> stage (last (steps s)) = stg)"
proof -
  have a: "exec_step stg step [] w' = Inl (OutOfRange ''steps'')"
    if "type step = COUNT \<and> stage step = stg" for w'
    using that by (simp add: exec_step_def Let_def)
  have b: "executeStep1Spec hm R x y K \<lparr>steps = pre @ [step]\<rparr> t stg fastpath =
        Inl (OutOfRange ''steps'')"
    if "(\<forall>p\<in>set pre. stage p \<noteq> stg) \<and> type step = COUNT \<and> stage step = stg"
    using that a by (simp add: executeStep1Spec_def walk_skip)
  have c: "steps s \<noteq> [] \<and> type (last (steps s)) = COUNT \<and> stage (last (steps s)) = stg"
    if e: "executeStep1Spec hm R x y K s t stg fastpath = Inl (OutOfRange ''steps'')"
  proof -
    let ?w0 = "\<lparr>st_x = x, st_y = y, st_dimensions = dimensions hm,
                st_significantvalues = K, st_t = t, st_fastpath = fastpath\<rparr>"
    from e have "walk stg (steps s) ?w0 = Inl (OutOfRange ''steps'')"
      by (auto simp: executeStep1Spec_def fill_final_oor split: sum.splits flow.splits)
    from walk_oor[OF this] show ?thesis .
  qed
  from a b c show ?thesis by blast
qed

theorem count_lookahead_in_bounds_witness:
  "exec_step STAGE1 ex_count [] ex_w = Inl (OutOfRange ''steps'') \<and>
   executeStep1Spec ex_hm ex_R 4 0 [(1, 7), (2, 3)]
      \<lparr>steps = [ex_save STAGE2] @ [ex_count]\<rparr> [] STAGE1 Null =
     Inl (OutOfRange ''steps'') \<and>
   type (last (steps \<lparr>steps = [ex_save STAGE2, ex_count]\<rparr>)) = COUNT"
  using count_lookahead_in_bounds [where step = ex_count and stg = STAGE1 and w = ex_w
      and pre = "[ex_save STAGE2]" and hm = ex_hm and R = ex_R
      and x = 4 and y = 0 and K = "[(1, 7), (2, 3)]" and t = "[]" and fastpath = Null
      and s = "\<lparr>steps = [ex_save STAGE2, ex_count]\<rparr>"]
  by (simp add: ex_count_def ex_save_def)

subsection \<open>SAVE\<close>

lemma save_entry_again:
  "save_entry hm makePath e iBooker = Inr (e', iBooker') \<Longrightarrow>
     save_entry hm makePath e' b = Inr (e', b)"
  by (auto simp: save_entry_def Let_def split: if_splits option.splits sum.splits)

text \<open>
  C9. A SAVE step that has completed, run again on the Table and the bookings it left:
  the second run changes neither. Every node it published holds a handle and is
  skipped; every node it skipped for lack of a distribution is skipped again.
\<close>

theorem executeSave_idempotent:
  "executeSave hm makePath step t iBooker = Inr (t', iBooker') \<Longrightarrow>
     executeSave hm makePath step' t' iBooker' = Inr (t', iBooker')"
proof (induction t arbitrary: iBooker t')
  case Nil
  then show ?case by simp
next
  case (Cons e t)
  from Cons.prems obtain e' b1 t1 where
    e: "save_entry hm makePath e iBooker = Inr (e', b1)"
    and r: "executeSave hm makePath step t b1 = Inr (t1, iBooker')"
    and t': "t' = e' # t1"
    by (auto split: sum.splits prod.splits)
  from save_entry_again[OF e] Cons.IH[OF r] t' show ?case by simp
qed

theorem executeSave_idempotent_witness:
  "executeSave ex_hm (\<lambda>k. ''folder'') (ex_step SAVE [] [])
     [([(1, 7)], ex_acc (ex_h1 ''a'' [5, 6])), ([(1, 8)], empty_histogram)] [] =
     Inr ([([(1, 7)], \<lparr>count = 0, me = Some (ex_h1 ''a'' [5, 6]), th1 = Some (ex_h1 ''a'' [5, 6])\<rparr>),
           ([(1, 8)], empty_histogram)],
          [(''folder'', new_TH1F ''a'' 2)]) \<and>
   executeSave ex_hm (\<lambda>k. ''folder'') (ex_step SAVE [] [])
     [([(1, 7)], \<lparr>count = 0, me = Some (ex_h1 ''a'' [5, 6]), th1 = Some (ex_h1 ''a'' [5, 6])\<rparr>),
      ([(1, 8)], empty_histogram)]
     [(''folder'', new_TH1F ''a'' 2)] =
     Inr ([([(1, 7)], \<lparr>count = 0, me = Some (ex_h1 ''a'' [5, 6]), th1 = Some (ex_h1 ''a'' [5, 6])\<rparr>),
           ([(1, 8)], empty_histogram)],
          [(''folder'', new_TH1F ''a'' 2)])"
proof -
  have 1: "executeSave ex_hm (\<lambda>k. ''folder'') (ex_step SAVE [] [])
     [([(1, 7)], ex_acc (ex_h1 ''a'' [5, 6])), ([(1, 8)], empty_histogram)] [] =
     Inr ([([(1, 7)], \<lparr>count = 0, me = Some (ex_h1 ''a'' [5, 6]), th1 = Some (ex_h1 ''a'' [5, 6])\<rparr>),
           ([(1, 8)], empty_histogram)],
          [(''folder'', new_TH1F ''a'' 2)])"
    by (simp add: save_entry_def ex_hm_def ex_acc_def ex_h1_def empty_histogram_def
        new_TH1F_def Add_def same_bins_def Let_def Float_t_0 Float_t_whole)
  from 1 executeSave_idempotent[OF 1] show ?thesis by simp
qed

subsection \<open>REDUCE\<close>

lemma tbl_put_append:
  "\<forall>k'\<in>set (map fst out). k' < k \<Longrightarrow> tbl_put k a out = out @ [(k, a)]"
  by (induction out) auto

lemma tbl_at_fresh: "k \<notin> set (map fst out) \<Longrightarrow> tbl_at out k = empty_histogram"
  by (simp add: tbl_at_def map_of_eq_None_iff[THEN iffD2] image_iff split: option.splits)

lemma reduce_entry_unsupported:
  assumes "arg step \<noteq> ''MEAN''" "arg step \<noteq> ''COUNT''" "th1 (snd e) \<noteq> None"
    "\<forall>k'\<in>set (map fst out). k' < fst e"
  shows "reduce_entry R step (lg, out) e =
     Inr (lg @ [LogError ''HistogramManager''
                  (''+++ Reduction '' @ [CHR 0x27] @ arg step @ '' not yet implemented'' @ [CHR 0x0A])],
          out @ [reduced0 e])"
proof -
  from assms(4) have "fst e \<notin> set (map fst out)" by auto
  then have "tbl_at out (fst e) = empty_histogram" by (rule tbl_at_fresh)
  with assms show ?thesis
    by (auto simp: reduce_entry_def Let_def tbl_put_append reduced0_def empty_histogram_def
        new_TH1F_def SetBinContent_def Float_t_0)
qed

lemma reduce_loop_unsupported:
  assumes "arg step \<noteq> ''MEAN''" "arg step \<noteq> ''COUNT''"
  shows "\<forall>e\<in>set t. th1 (snd e) \<noteq> None \<Longrightarrow> sorted_wrt (<) (map fst (out @ t)) \<Longrightarrow>
     reduce_loop R step t (lg, out) =
       Inr (lg @ replicate (length t) (LogError ''HistogramManager''
                  (''+++ Reduction '' @ [CHR 0x27] @ arg step @ '' not yet implemented'' @ [CHR 0x0A])),
            out @ map reduced0 t)"
proof (induction t arbitrary: lg out)
  case Nil
  then show ?case by simp
next
  case (Cons e t)
  from Cons.prems(2) have lt: "\<forall>k'\<in>set (map fst out). k' < fst e"
    by (auto simp: sorted_wrt_append)
  have s: "sorted_wrt (<) (map fst ((out @ [reduced0 e]) @ t))"
    using Cons.prems(2) by (simp add: reduced0_def sorted_wrt_append)
  from Cons.prems(1) have h: "th1 (snd e) \<noteq> None" "\<forall>e\<in>set t. th1 (snd e) \<noteq> None" by auto
  show ?case
    using reduce_entry_unsupported[OF assms h(1) lt, of R lg] Cons.IH[OF h(2) s]
    by (simp add: replicate_app_Cons_same)
qed

text \<open>
  C4 (as amended). A REDUCE step whose reduction name is neither MEAN nor COUNT, on a
  Table whose entries all hold a distribution: the step completes (the error is not
  fatal), one error is reported for each entry, and each entry's distribution is
  replaced by a one-bin distribution holding 0 that keeps the entry's name.
\<close>

theorem executeReduce_unsupported:
  assumes "arg step \<noteq> ''MEAN''" and "arg step \<noteq> ''COUNT''"
    and "table_ok t" and "\<forall>e\<in>set t. th1 (snd e) \<noteq> None"
  shows "executeReduce R step t =
     Inr (replicate (length t) (LogError ''HistogramManager''
            (''+++ Reduction '' @ [CHR 0x27] @ arg step @ '' not yet implemented'' @ [CHR 0x0A])),
          map reduced0 t)"
  using reduce_loop_unsupported[OF assms(1,2,4), of "[]" R "[]"] assms(3)
  by (simp add: executeReduce_def table_ok_def)

theorem executeReduce_unsupported_witness:
  "executeReduce ex_R (ex_step REDUCE [] ''MEDIAN'')
     [([(1, 7)], ex_acc (ex_h1 ''a'' [5, 6])), ([(1, 8)], ex_acc (ex_h1 ''b'' [4]))] =
   Inr ([LogError ''HistogramManager''
           (''+++ Reduction '' @ [CHR 0x27] @ ''MEDIAN'' @ '' not yet implemented'' @ [CHR 0x0A]),
         LogError ''HistogramManager''
           (''+++ Reduction '' @ [CHR 0x27] @ ''MEDIAN'' @ '' not yet implemented'' @ [CHR 0x0A])],
        [([(1, 7)], ex_acc \<lparr>GetName = ''a'', GetDimension = 1, XNbins = 1, YNbins = 1,
                            cells = [0, 0, 0], GetEntries = 1\<rparr>),
         ([(1, 8)], ex_acc \<lparr>GetName = ''b'', GetDimension = 1, XNbins = 1, YNbins = 1,
                            cells = [0, 0, 0], GetEntries = 1\<rparr>)])"
  using executeReduce_unsupported [where R = ex_R and step = "ex_step REDUCE [] ''MEDIAN''"
      and t = "[([(1, 7)], ex_acc (ex_h1 ''a'' [5, 6])), ([(1, 8)], ex_acc (ex_h1 ''b'' [4]))]"]
  by (simp add: ex_step_def ex_acc_def ex_h1_def table_ok_def reduced0_def)

text \<open>C4 as stated fails: the two-bin distribution of the entry is not left as it
  was, a one-bin distribution holding 0 stands in its place.\<close>

theorem executeReduce_unsupported_counterexample:
  "executeReduce ex_R (ex_step REDUCE [] ''MEDIAN'') [([(1, 7)], ex_acc (ex_h1 ''a'' [5, 6]))] =
   Inr ([LogError ''HistogramManager''
           (''+++ Reduction '' @ [CHR 0x27] @ ''MEDIAN'' @ '' not yet implemented'' @ [CHR 0x0A])],
        [([(1, 7)], ex_acc \<lparr>GetName = ''a'', GetDimension = 1, XNbins = 1, YNbins = 1,
                            cells = [0, 0, 0], GetEntries = 1\<rparr>)]) \<and>
   \<lparr>GetName = ''a'', GetDimension = 1, XNbins = 1, YNbins = 1,
    cells = [0, 0, 0], GetEntries = 1\<rparr> \<noteq> ex_h1 ''a'' [5, 6]"
  by (simp add: executeReduce_def reduce_entry_def ex_step_def ex_acc_def ex_h1_def Let_def
      tbl_at_def empty_histogram_def new_TH1F_def SetBinContent_def Float_t_0)

subsection \<open>The cache slot\<close>

lemma tbl_index_present: "map_of t k = Some a \<Longrightarrow> tbl_index t k = t"
  by (simp add: tbl_index_def)

lemma tbl_at_present: "map_of t k = Some a \<Longrightarrow> tbl_at t k = a"
  by (simp add: tbl_at_def)

lemma exec_step_Node:
  assumes "stg \<noteq> STAGE1_2" and "st_fastpath w = Null"
    and "map_of (st_t w) k = Some a"
    and "k = target stg (step # rest) (st_significantvalues w)"
  shows "exec_step stg step rest (w\<lparr>st_fastpath := Node k\<rparr>) =
     (case exec_step stg step rest w of
        Inl e \<Rightarrow> Inl e
      | Inr (Continue w') \<Rightarrow> Inr (Continue (w'\<lparr>st_fastpath := Node k\<rparr>))
      | Inr (Return w') \<Rightarrow> Inr (Return w'))"
proof -
  obtain x y d vs t p where w: "w = \<lparr>st_x = x, st_y = y, st_dimensions = d,
      st_significantvalues = vs, st_t = t, st_fastpath = p\<rparr>"
    by (cases w) simp
  show ?thesis
  proof (cases "stage step = stg \<and> type step = COUNT \<and> (\<exists>nxt r. rest = nxt # r \<and> stage nxt = STAGE1_2)")
    case True
    then obtain nxt r where r: "rest = nxt # r" "stage nxt = STAGE1_2" by blast
    from True r assms(4) w have k: "k = vs" by simp
    show ?thesis
      using True r assms(2,3) k w
      by (simp add: exec_step_def count_increment_def Let_def tbl_index_present)
  next
    case False
    show ?thesis
    proof (cases "stage step = stg")
      case False
      then show ?thesis by (simp add: exec_step_def)
    next
      case True
      with False have nc: "type step = COUNT \<Longrightarrow> rest = nxt # r \<Longrightarrow> stage nxt \<noteq> STAGE1_2" for nxt r
        by auto
      show ?thesis
        using True assms(1,2) w nc
        by (cases "type step"; cases rest; cases "columns step")
           (simp_all add: exec_step_def Let_def del: target.simps count_path.simps)
    qed
  qed
qed

lemma exec_step_Null_Continue:
  assumes "stg \<noteq> STAGE1_2" and "exec_step stg step rest w = Inr (Continue w')"
  shows "st_t w' = st_t w \<and> st_fastpath w' = st_fastpath w \<and>
         target stg (step # rest) (st_significantvalues w) = target stg rest (st_significantvalues w') \<and>
         (count_path stg (step # rest) \<longleftrightarrow> count_path stg rest)"
proof (cases "stage step = stg")
  case False
  with assms show ?thesis by (auto simp add: exec_step_def)
next
  case True
  note t = target.simps(2)[of stg step rest "st_significantvalues w"]
  note c = count_path.simps(2)[of stg step rest]
  from True assms t c show ?thesis
    by (cases "type step"; cases rest; cases "columns step")
       (auto simp add: exec_step_def Let_def simp del: target.simps count_path.simps
          split: if_splits sum.splits)
qed

lemma exec_step_Null_Return:
  assumes "exec_step stg step rest w = Inr (Return w')" and "st_fastpath w = Null"
  shows "count_path stg (step # rest) \<and>
         st_fastpath w' = Node (target stg (step # rest) (st_significantvalues w)) \<and>
         (\<exists>a. map_of (st_t w') (target stg (step # rest) (st_significantvalues w)) = Some a)"
proof (cases "stage step = stg")
  case False
  with assms show ?thesis by (auto simp add: exec_step_def)
next
  case True
  note t = target.simps(2)[of stg step rest "st_significantvalues w"]
  note c = count_path.simps(2)[of stg step rest]
  from True assms t c show ?thesis
    by (cases "type step"; cases rest; cases "columns step")
       (auto simp add: exec_step_def Let_def count_increment_def map_of_tbl_put map_of_tbl_index
          simp del: target.simps count_path.simps
          split: if_splits sum.splits option.splits)
qed

lemma walk_Null_Continue:
  assumes "stg \<noteq> STAGE1_2"
  shows "walk stg ss w = Inr (Continue w') \<Longrightarrow>
     st_t w' = st_t w \<and> st_fastpath w' = st_fastpath w \<and>
     st_significantvalues w' = target stg ss (st_significantvalues w) \<and> \<not> count_path stg ss"
proof (induction ss arbitrary: w)
  case Nil
  then show ?case by simp
next
  case (Cons step rest)
  from Cons.prems obtain w1 where e: "exec_step stg step rest w = Inr (Continue w1)"
    and r: "walk stg rest w1 = Inr (Continue w')"
    by (auto split: sum.splits flow.splits)
  from exec_step_Null_Continue[OF assms e] Cons.IH[OF r] show ?case by simp
qed

lemma walk_Null_Return:
  assumes "stg \<noteq> STAGE1_2"
  shows "walk stg ss w = Inr (Return w') \<Longrightarrow> st_fastpath w = Null \<Longrightarrow>
     count_path stg ss \<and> st_fastpath w' = Node (target stg ss (st_significantvalues w)) \<and>
     (\<exists>a. map_of (st_t w') (target stg ss (st_significantvalues w)) = Some a)"
proof (induction ss arbitrary: w)
  case Nil
  then show ?case by simp
next
  case (Cons step rest)
  show ?case
  proof (cases "exec_step stg step rest w")
    case (Inl e)
    with Cons.prems show ?thesis by simp
  next
    case (Inr f)
    show ?thesis
    proof (cases f)
      case (Return w1)
      with Inr Cons.prems have "exec_step stg step rest w = Inr (Return w')" by simp
      from exec_step_Null_Return[OF this Cons.prems(2)] show ?thesis .
    next
      case (Continue w1)
      with Inr have e: "exec_step stg step rest w = Inr (Continue w1)" by simp
      with Cons.prems have r: "walk stg rest w1 = Inr (Return w')" by simp
      from exec_step_Null_Continue[OF assms e] Cons.prems(2)
      have 1: "st_fastpath w1 = Null"
        and 2: "target stg (step # rest) (st_significantvalues w) = target stg rest (st_significantvalues w1)"
        and 3: "count_path stg (step # rest) \<longleftrightarrow> count_path stg rest"
        by simp_all
      from Cons.IH[OF r 1] 2 3 show ?thesis by simp
    qed
  qed
qed

lemma walk_Node:
  assumes "stg \<noteq> STAGE1_2"
  shows "st_fastpath w = Null \<Longrightarrow> map_of (st_t w) k = Some a \<Longrightarrow>
     k = target stg ss (st_significantvalues w) \<Longrightarrow>
     walk stg ss (w\<lparr>st_fastpath := Node k\<rparr>) =
       (case walk stg ss w of
          Inl e \<Rightarrow> Inl e
        | Inr (Continue w') \<Rightarrow> Inr (Continue (w'\<lparr>st_fastpath := Node k\<rparr>))
        | Inr (Return w') \<Rightarrow> Inr (Return w'))"
proof (induction ss arbitrary: w)
  case Nil
  then show ?case by simp
next
  case (Cons step rest)
  note n = exec_step_Node[OF assms Cons.prems(1,2,3)]
  show ?case
  proof (cases "exec_step stg step rest w")
    case (Inl e)
    with n show ?thesis by simp
  next
    case (Inr f)
    show ?thesis
    proof (cases f)
      case (Return w1)
      with Inr n show ?thesis by simp
    next
      case (Continue w1)
      with Inr have e: "exec_step stg step rest w = Inr (Continue w1)" by simp
      from exec_step_Null_Continue[OF assms e] Cons.prems
      have 1: "st_fastpath w1 = Null" and 2: "map_of (st_t w1) k = Some a"
        and 3: "k = target stg rest (st_significantvalues w1)"
        by simp_all
      from Cons.IH[OF 1 2 3] e n show ?thesis by simp
    qed
  qed
qed

lemma booked_fill: "booked a \<Longrightarrow> booked (fill f a)"
  by (auto simp: booked_def fill_def fill_histogram_def)

lemma fill_final_Node:
  assumes "st_fastpath w = Null" and "map_of (st_t w) (st_significantvalues w) = Some a"
    and "booked a"
  shows "fill_final hm R (w\<lparr>st_fastpath := Node (st_significantvalues w)\<rparr>) = fill_final hm R w"
  using assms by (auto simp: fill_final_def booked_def)

lemma fill_final_Null_ok:
  assumes "fill_final hm R w = Inr w'" and "st_fastpath w = Null"
  shows "st_fastpath w' = Null \<or>
     (st_fastpath w' = Node (st_significantvalues w) \<and>
      (\<exists>a. map_of (st_t w') (st_significantvalues w) = Some a \<and> booked a))"
proof (cases "\<exists>a. map_of (st_t w) (st_significantvalues w) = Some a \<and> booked a")
  case False
  with assms show ?thesis
    by (auto simp: fill_final_def booked_def split: option.splits if_splits)
next
  case True
  then obtain a where a: "map_of (st_t w) (st_significantvalues w) = Some a" "booked a" by blast
  with assms show ?thesis
    by (auto simp: fill_final_def fill_through_def map_of_tbl_put booked_fill booked_def[of a]
        split: if_splits)
qed

lemma executeStep1Spec_fastpath:
  assumes "fastpath_ok s K t p"
  shows "executeStep1Spec hm R x y K s t STAGE1 p = executeStep1Spec hm R x y K s t STAGE1 Null"
proof (cases "p = Null")
  case True
  then show ?thesis by simp
next
  case False
  let ?k = "target STAGE1 (steps s) K"
  let ?w = "\<lparr>st_x = x, st_y = y, st_dimensions = dimensions hm,
            st_significantvalues = K, st_t = t, st_fastpath = Null\<rparr>"
  from False assms obtain a where p: "p = Node ?k" and a: "map_of t ?k = Some a"
    and b: "count_path STAGE1 (steps s) \<or> booked a"
    by (auto simp: fastpath_ok_def)
  have wn: "walk STAGE1 (steps s) (?w\<lparr>st_fastpath := Node ?k\<rparr>) =
       (case walk STAGE1 (steps s) ?w of
          Inl e \<Rightarrow> Inl e
        | Inr (Continue w') \<Rightarrow> Inr (Continue (w'\<lparr>st_fastpath := Node ?k\<rparr>))
        | Inr (Return w') \<Rightarrow> Inr (Return w'))"
    by (rule walk_Node[where a = a]) (use a in simp_all)
  show ?thesis
  proof (cases "walk STAGE1 (steps s) ?w")
    case (Inl e)
    with wn p show ?thesis by (simp add: executeStep1Spec_def)
  next
    case (Inr f)
    show ?thesis
    proof (cases f)
      case (Return w')
      with Inr wn p show ?thesis by (simp add: executeStep1Spec_def)
    next
      case (Continue w')
      with Inr have c: "walk STAGE1 (steps s) ?w = Inr (Continue w')" by simp
      from walk_Null_Continue[OF _ c]
      have 1: "st_t w' = t" and 2: "st_fastpath w' = Null"
        and 3: "st_significantvalues w' = ?k" and 4: "\<not> count_path STAGE1 (steps s)"
        by simp_all
      from b 4 have "booked a" by simp
      with fill_final_Node[of w' a hm R] 1 2 3 a
      have "fill_final hm R (w'\<lparr>st_fastpath := Node ?k\<rparr>) = fill_final hm R w'" by simp
      with c wn p show ?thesis by (simp add: executeStep1Spec_def)
    qed
  qed
qed

lemma executeStep1Spec_fastpath_ok:
  assumes "executeStep1Spec hm R x y K s t STAGE1 Null = Inr w"
  shows "fastpath_ok s K (st_t w) (st_fastpath w)"
proof -
  let ?k = "target STAGE1 (steps s) K"
  let ?w = "\<lparr>st_x = x, st_y = y, st_dimensions = dimensions hm,
            st_significantvalues = K, st_t = t, st_fastpath = Null\<rparr>"
  show ?thesis
  proof (cases "walk STAGE1 (steps s) ?w")
    case (Inl e)
    with assms show ?thesis by (simp add: executeStep1Spec_def)
  next
    case (Inr f)
    show ?thesis
    proof (cases f)
      case (Return w')
      with Inr assms have r: "walk STAGE1 (steps s) ?w = Inr (Return w)"
        by (simp add: executeStep1Spec_def)
      from walk_Null_Return[OF _ r] show ?thesis by (auto simp: fastpath_ok_def)
    next
      case (Continue w')
      with Inr have c: "walk STAGE1 (steps s) ?w = Inr (Continue w')" by simp
      from walk_Null_Continue[OF _ c]
      have 2: "st_fastpath w' = Null" and 3: "st_significantvalues w' = ?k" by simp_all
      from c assms have "fill_final hm R w' = Inr w" by (simp add: executeStep1Spec_def)
      from fill_final_Null_ok[OF this 2] 3 show ?thesis by (auto simp: fastpath_ok_def)
    qed
  qed
qed

lemma fill_calls_fastpath:
  "fastpath_ok s K t p \<Longrightarrow>
     map_sum id fst (fill_calls_cached hm R s K calls t p) = fill_calls_uncached hm R s K calls t"
proof (induction calls arbitrary: t p)
  case Nil
  then show ?case by simp
next
  case (Cons c calls)
  obtain x y where c: "c = (x, y)" by (cases c)
  note e = executeStep1Spec_fastpath[OF Cons.prems, of hm R x y]
  show ?case
  proof (cases "executeStep1Spec hm R x y K s t STAGE1 Null")
    case (Inl err)
    with e c show ?thesis by simp
  next
    case (Inr w)
    from executeStep1Spec_fastpath_ok[OF Inr] have "fastpath_ok s K (st_t w) (st_fastpath w)" .
    from Cons.IH[OF this] Inr e c show ?thesis by simp
  qed
qed

lemma target_filter: "\<exists>cs. \<forall>vs. target stg ss vs = filter (\<lambda>p. fst p \<notin> set cs) vs"
proof (induction ss)
  case Nil
  have "\<forall>vs. target stg [] vs = filter (\<lambda>p. fst p \<notin> set []) vs" by simp
  then show ?case by blast
next
  case (Cons step rest)
  then obtain cs where cs: "\<And>vs. target stg rest vs = filter (\<lambda>p. fst p \<notin> set cs) vs"
    by blast
  have nil: "\<forall>vs :: Values. vs = filter (\<lambda>p. fst p \<notin> set []) vs" by simp
  show ?case
  proof (cases "stage step = stg")
    case False
    with cs have "\<forall>vs. target stg (step # rest) vs = filter (\<lambda>p. fst p \<notin> set cs) vs" by simp
    then show ?thesis by blast
  next
    case True
    note t = target.simps(2)[of stg step rest]
    have ext: "\<exists>cs'. \<forall>vs. target stg (step # rest) vs = filter (\<lambda>p. fst p \<notin> set cs') vs"
      if "type step = EXTEND_X \<or> type step = EXTEND_Y"
    proof (cases "columns step")
      case Nil
      with that True t have "\<forall>vs. target stg (step # rest) vs = filter (\<lambda>p. fst p \<notin> set []) vs"
        by (auto simp del: target.simps)
      then show ?thesis by blast
    next
      case (Cons c cols)
      have "filter (\<lambda>p. fst p \<notin> set cs) (erase vs c) = filter (\<lambda>p. fst p \<notin> set (c # cs)) vs" for vs
        by (auto simp: erase_def intro: filter_cong)
      with that True t Cons cs
      have "\<forall>vs. target stg (step # rest) vs = filter (\<lambda>p. fst p \<notin> set (c # cs)) vs"
        by (auto simp del: target.simps)
      then show ?thesis by blast
    qed
    have other: "\<exists>cs'. \<forall>vs. target stg (step # rest) vs = filter (\<lambda>p. fst p \<notin> set cs') vs"
      if "type step \<notin> {COUNT, EXTEND_X, EXTEND_Y}"
    proof -
      from that True cs
      have "\<forall>vs. target stg (step # rest) vs = filter (\<lambda>p. fst p \<notin> set cs) vs"
        by (cases "type step") simp_all
      then show ?thesis by blast
    qed
    show ?thesis
    proof (cases "type step")
      case COUNT
      show ?thesis
      proof (cases "\<exists>nxt r. rest = nxt # r \<and> stage nxt \<noteq> STAGE1_2")
        case c: True
        with COUNT True t cs
        have "\<forall>vs. target stg (step # rest) vs = filter (\<lambda>p. fst p \<notin> set cs) vs"
          by (auto simp del: target.simps)
        then show ?thesis by blast
      next
        case c: False
        with COUNT True t
        have "\<forall>vs. target stg (step # rest) vs = filter (\<lambda>p. fst p \<notin> set []) vs"
          by (cases rest) (auto simp del: target.simps)
        then show ?thesis by blast
      qed
    next
      case EXTEND_X
      then show ?thesis by (intro ext) simp
    next
      case EXTEND_Y
      then show ?thesis by (intro ext) simp
    qed (rule other, simp)+
  qed
qed

lemma target_idem: "target stg ss (target stg ss vs) = target stg ss vs"
proof -
  from target_filter[of stg ss] obtain cs where
    "\<And>vs. target stg ss vs = filter (\<lambda>p. fst p \<notin> set cs) vs" by blast
  then show ?thesis by simp
qed

lemma exec_step_Return_key:
  assumes "exec_step stg step rest w = Inr (Return w')"
  shows "st_significantvalues w' = target stg (step # rest) (st_significantvalues w)"
proof (cases "stage step = stg")
  case False
  with assms show ?thesis by (simp add: exec_step_def)
next
  case True
  note t = target.simps(2)[of stg step rest "st_significantvalues w"]
  from True assms t show ?thesis
    by (cases "type step"; cases rest; cases "columns step")
       (auto simp add: exec_step_def Let_def count_increment_def
          simp del: target.simps
          split: if_splits sum.splits option.splits ptr.splits)
qed

lemma walk_Return_key:
  assumes "stg \<noteq> STAGE1_2"
  shows "walk stg ss w = Inr (Return w') \<Longrightarrow>
     st_significantvalues w' = target stg ss (st_significantvalues w)"
proof (induction ss arbitrary: w)
  case Nil
  then show ?case by simp
next
  case (Cons step rest)
  show ?case
  proof (cases "exec_step stg step rest w")
    case (Inl e)
    with Cons.prems show ?thesis by simp
  next
    case (Inr f)
    show ?thesis
    proof (cases f)
      case (Return w1)
      with Inr Cons.prems have "exec_step stg step rest w = Inr (Return w')" by simp
      then show ?thesis by (rule exec_step_Return_key)
    next
      case (Continue w1)
      with Inr have e: "exec_step stg step rest w = Inr (Continue w1)" by simp
      with Cons.prems have r: "walk stg rest w1 = Inr (Return w')" by simp
      from exec_step_Null_Continue[OF assms e] Cons.IH[OF r] show ?thesis by simp
    qed
  qed
qed

lemma fill_final_key:
  "fill_final hm R w = Inr w' \<Longrightarrow> st_significantvalues w' = st_significantvalues w"
  by (auto simp: fill_final_def fill_through_def Let_def
      split: option.splits if_splits ptr.splits)

lemma executeStep1Spec_key:
  assumes "executeStep1Spec hm R x y K s t STAGE1 p = Inr w"
  shows "st_significantvalues w = target STAGE1 (steps s) K"
proof -
  let ?w = "\<lparr>st_x = x, st_y = y, st_dimensions = dimensions hm,
            st_significantvalues = K, st_t = t, st_fastpath = p\<rparr>"
  show ?thesis
  proof (cases "walk STAGE1 (steps s) ?w")
    case (Inl e)
    with assms show ?thesis by (simp add: executeStep1Spec_def)
  next
    case (Inr f)
    show ?thesis
    proof (cases f)
      case (Return w')
      with Inr assms have "walk STAGE1 (steps s) ?w = Inr (Return w)"
        by (simp add: executeStep1Spec_def)
      from walk_Return_key[OF _ this] show ?thesis by simp
    next
      case (Continue w')
      with Inr have c: "walk STAGE1 (steps s) ?w = Inr (Continue w')" by simp
      with assms have "fill_final hm R w' = Inr w" by (simp add: executeStep1Spec_def)
      from fill_final_key[OF this] walk_Null_Continue[OF _ c] show ?thesis by simp
    qed
  qed
qed

lemma fastpath_ok_key:
  "fastpath_ok s K t p \<Longrightarrow> target STAGE1 (steps s) K' = target STAGE1 (steps s) K \<Longrightarrow>
     fastpath_ok s K' t p"
  by (simp add: fastpath_ok_def)

lemma fill_calls_inplace_fastpath:
  "fastpath_ok s sv t p \<Longrightarrow>
     map_sum id (\<lambda>r. (fst r, fst (snd r))) (fill_calls_cached_inplace hm R s calls sv t p) =
       fill_calls_uncached_inplace hm R s calls sv t"
proof (induction calls arbitrary: sv t p)
  case Nil
  then show ?case by simp
next
  case (Cons c calls)
  obtain x y where c: "c = (x, y)" by (cases c)
  note e = executeStep1Spec_fastpath[OF Cons.prems, of hm R x y]
  show ?case
  proof (cases "executeStep1Spec hm R x y sv s t STAGE1 Null")
    case (Inl err)
    with e c show ?thesis by simp
  next
    case (Inr w)
    from executeStep1Spec_key[OF Inr] target_idem
    have "target STAGE1 (steps s) (st_significantvalues w) = target STAGE1 (steps s) sv"
      by simp
    from fastpath_ok_key[OF executeStep1Spec_fastpath_ok[OF Inr] this]
    have "fastpath_ok s (st_significantvalues w) (st_t w) (st_fastpath w)" .
    from Cons.IH[OF this] Inr e c show ?thesis by simp
  qed
qed

text \<open>
  C1. A sequence of stage-1 calls of the executor for samples that share the extracted
  key \<open>K\<close>, begun with an empty cache slot: handing the slot from each call to the next,
  and resetting it to null before every call, end in the same Table, or fail with the
  same error. This holds when every call is handed the key \<open>K\<close>, and also when every
  call is handed the key object as the previous call left it.
\<close>

theorem fastpath_pure_optimisation:
  "map_sum id fst (fill_calls_cached hm R s K calls t Null) =
     fill_calls_uncached hm R s K calls t \<and>
   map_sum id (\<lambda>r. (fst r, fst (snd r))) (fill_calls_cached_inplace hm R s calls K t Null) =
     fill_calls_uncached_inplace hm R s calls K t"
proof
  show "map_sum id fst (fill_calls_cached hm R s K calls t Null) =
     fill_calls_uncached hm R s K calls t"
    by (rule fill_calls_fastpath) (simp add: fastpath_ok_def)
  show "map_sum id (\<lambda>r. (fst r, fst (snd r))) (fill_calls_cached_inplace hm R s calls K t Null) =
     fill_calls_uncached_inplace hm R s calls K t"
    by (rule fill_calls_inplace_fastpath) (simp add: fastpath_ok_def)
qed

theorem fastpath_pure_optimisation_witness:
  "fill_calls_uncached ex_hm ex_R ex_extend_spec [(1, 7), (2, 3)] [(4, 0), (5, 0)]
     [([(1, 7)], ex_booked ''n'')] =
     Inr [([(1, 7)], \<lparr>count = 0, me = Some \<lparr>GetName = ''n'', GetDimension = 1, XNbins = 1,
            YNbins = 1, cells = [0, 0, 0, 3, 3], GetEntries = 2\<rparr>, th1 = None\<rparr>)] \<and>
   map_sum id fst (fill_calls_cached ex_hm ex_R ex_extend_spec [(1, 7), (2, 3)] [(4, 0), (5, 0)]
     [([(1, 7)], ex_booked ''n'')] Null) =
     Inr [([(1, 7)], \<lparr>count = 0, me = Some \<lparr>GetName = ''n'', GetDimension = 1, XNbins = 1,
            YNbins = 1, cells = [0, 0, 0, 3, 3], GetEntries = 2\<rparr>, th1 = None\<rparr>)] \<and>
   map_sum id (\<lambda>r. (fst r, fst (snd r)))
     (fill_calls_cached_inplace ex_hm ex_R ex_extend_spec [(4, 0), (5, 0)] [(1, 7), (2, 3)]
        [([(1, 7)], ex_booked ''n'')] Null) =
     fill_calls_uncached_inplace ex_hm ex_R ex_extend_spec [(4, 0), (5, 0)] [(1, 7), (2, 3)]
        [([(1, 7)], ex_booked ''n'')]"
proof -
  have u: "fill_calls_uncached ex_hm ex_R ex_extend_spec [(1, 7), (2, 3)] [(4, 0), (5, 0)]
     [([(1, 7)], ex_booked ''n'')] =
     Inr [([(1, 7)], \<lparr>count = 0, me = Some \<lparr>GetName = ''n'', GetDimension = 1, XNbins = 1,
            YNbins = 1, cells = [0, 0, 0, 3, 3], GetEntries = 2\<rparr>, th1 = None\<rparr>)]"
    by code_simp
  with fastpath_pure_optimisation [of ex_hm ex_R ex_extend_spec "[(1, 7), (2, 3)]" "[(4, 0), (5, 0)]"
      "[([(1, 7)], ex_booked ''n'')]"]
  show ?thesis by simp
qed

subsection \<open>COUNT followed by a per-event GROUPBY\<close>


















subsection \<open>EXTEND\<close>


lemma extend_nbins_th1:
  "extend_nbins c isX t nbins = Inr nbins' \<Longrightarrow> \<forall>e\<in>set t. th1 (snd e) \<noteq> None"
  by (induction t arbitrary: nbins) (auto simp: Let_def split: option.splits if_splits)

lemma executeExtend_books:
  assumes "columns step = c # cs" and "extend_nbins c isX (e # t) (\<lambda>_. 0) = Inr nbins"
  shows "executeExtend step (e # t) isX = Inl (UndefinedBehaviour ''dangling pointer'')"
proof -
  from extend_nbins_th1[OF assms(2)] obtain h where "th1 (snd e) = Some h" by auto
  then have "extend_entry c isX nbins [] e = Inl (UndefinedBehaviour ''dangling pointer'')"
    by (simp add: extend_entry_def tbl_at_def empty_histogram_def extend_book_def
        read_c_str_def Let_def)
  with assms show ?thesis by (simp add: executeExtend_def)
qed












text \<open>
  C5. The three one-dimensional distributions of 2, 3 and 1 bins at the values 10, 20
  and 30 of the dropped column: the EXTEND_X step reaches the booking of the merged
  distribution for the first of them and reads the title through the dangling pointer.
  The same holds on every Table with a distribution in each entry (lemma
  \<open>executeExtend_books\<close>), so the step has no defined result whose bins could be
  compared with the concatenation.
\<close>

theorem executeExtend_X_dangling_title:
  "executeExtend (ex_step EXTEND_X [2] []) ex_three True =
     Inl (UndefinedBehaviour ''dangling pointer'')"
  unfolding ex_three_def
  by (rule executeExtend_books[where c = 2 and cs = "[]"])
     (simp_all add: ex_step_def ex_acc_def ex_h1_def erase_def INT_MAX_def Let_def)

end
